theory Spec2Isabelle
  imports Main "HOL-Library.Multiset"
begin

section \<open>The sample aggregator of SampleReader.hpp\<close>

subsection \<open>Time\<close>

text \<open>
  Modelled from the spec: \<^verbatim>\<open>base::Time\<close> comes from \<^verbatim>\<open>base/time.h\<close>, which is not part
  of the repository. The spec asks for a totally ordered type with addition, subtraction, a
  default (zero) value and a null predicate that holds exactly of the zero value. It is
  taken as the integers (a signed count of microseconds), so timestamps before the null
  time exist; overflow of the underlying machine integer is not modelled.
\<close>

type_synonym Time = int

definition isNull :: "Time \<Rightarrow> bool" where
  "isNull t = (t = 0)"

subsection \<open>Stream\<close>

text \<open>
  \<^verbatim>\<open>Stream<T>\<close> with its base class \<^verbatim>\<open>StreamBase\<close>. The template argument \<^verbatim>\<open>T\<close> is kept as
  the field \<open>elem_type\<close> (what \<^verbatim>\<open>dynamic_cast\<close> inspects); payloads are values of one type
  \<open>'v\<close>. The callback is not a field: a call of it is returned by \<open>Stream_pop\<close> and logged
  by the aggregator. \<^verbatim>\<open>std::queue\<close> is a list with the front at the head.
\<close>

record ('ty, 'v) Stream =
  overdue :: bool
  elem_type :: 'ty
  buffer :: "(Time \<times> 'v) list"
  bufferSize :: nat
  period :: Time
  lastTime :: Time

definition Stream_new :: "'ty \<Rightarrow> nat \<Rightarrow> Time \<Rightarrow> ('ty, 'v) Stream" where
  "Stream_new ty bs p =
     \<lparr>overdue = False, elem_type = ty, buffer = [], bufferSize = bs, period = p, lastTime = 0\<rparr>"

definition getBufferStatus :: "('ty, 'v) Stream \<Rightarrow> nat \<times> nat" where
  "getBufferStatus st = (length (buffer st), bufferSize st)"

text \<open>The loop \<^verbatim>\<open>while (bufferSize > 0 && buffer.size() >= bufferSize) buffer.pop();\<close>\<close>

fun make_space :: "nat \<Rightarrow> 'a list \<Rightarrow> 'a list" where
  "make_space bs [] = []"
| "make_space bs (x # xs) =
     (if bs > 0 \<and> length (x # xs) \<ge> bs then make_space bs xs else x # xs)"

definition Stream_push :: "('ty, 'v) Stream \<Rightarrow> Time \<Rightarrow> 'v \<Rightarrow> ('ty, 'v) Stream" where
  "Stream_push st ts data =
     (if ts < lastTime st then st
      else st\<lparr>lastTime := ts,
              buffer := make_space (bufferSize st) (buffer st) @ [(ts, data)]\<rparr>)"

definition Stream_hasData :: "('ty, 'v) Stream \<Rightarrow> bool" where
  "Stream_hasData st = (buffer st \<noteq> [])"

text \<open>\<open>Stream_pop\<close> returns the stream and the callback invocation it made, if any.\<close>

definition Stream_pop :: "bool \<Rightarrow> ('ty, 'v) Stream \<Rightarrow> ('ty, 'v) Stream \<times> (Time \<times> 'v) option" where
  "Stream_pop late st =
     (case buffer st of
        [] \<Rightarrow> (st, None)
      | x # xs \<Rightarrow>
          (if \<not> late then (st\<lparr>overdue := False, buffer := xs\<rparr>, Some x)
           else (st\<lparr>buffer := xs\<rparr>, None)))"

definition Stream_nextTimeStamp :: "('ty, 'v) Stream \<Rightarrow> Time" where
  "Stream_nextTimeStamp st =
     (case buffer st of [] \<Rightarrow> lastTime st + period st | x # xs \<Rightarrow> fst x)"

subsection \<open>StreamIndex\<close>

text \<open>The pointer \<^verbatim>\<open>StreamBase* stream\<close> is the position of the stream in \<^verbatim>\<open>streams\<close>.\<close>

record StreamIndex =
  time :: Time
  hasData :: bool
  stream :: nat

text \<open>
  \<^verbatim>\<open>std::sort(items.begin(), items.end())\<close> with \<^verbatim>\<open>operator<\<close> comparing \<open>time\<close> only. The
  library routine is not part of the repository; it is a parameter \<open>srt\<close> of \<open>step\<close>, and
  \<open>std_sort\<close> is what the C++ standard promises of it: the result is a rearrangement of
  the input in which no element is less than an earlier one. The order of elements that
  compare equal is left open by the standard.
\<close>

definition std_sort :: "(StreamIndex list \<Rightarrow> StreamIndex list) \<Rightarrow> bool" where
  "std_sort srt =
     (\<forall>xs. mset (srt xs) = mset xs \<and> sorted_wrt (\<lambda>a b. \<not> time b < time a) (srt xs))"

subsection \<open>SampleReader\<close>

text \<open>
  \<open>delivered\<close> is the log of callback invocations, oldest first: the position of the
  stream whose callback ran, and the two arguments it was given.
\<close>

record ('ty, 'v) SampleReader =
  streams :: "('ty, 'v) Stream list"
  timeout :: Time
  latest_ts :: Time
  current_ts :: Time
  delivered :: "(nat \<times> Time \<times> 'v) list"

datatype error =
    InvalidIndex   \<comment> \<open>\<^verbatim>\<open>throw std::runtime_error("invalid stream index.")\<close>\<close>
  | OutOfBounds    \<comment> \<open>\<^verbatim>\<open>streams[idx]\<close> past the end of the vector: undefined behaviour\<close>
  | TypeMismatch   \<comment> \<open>\<^verbatim>\<open>assert( stream )\<close> fails after the \<^verbatim>\<open>dynamic_cast\<close>\<close>

definition SampleReader_new :: "Time \<Rightarrow> ('ty, 'v) SampleReader" where
  "SampleReader_new t =
     \<lparr>streams = [], timeout = t, latest_ts = 0, current_ts = 0, delivered = []\<rparr>"

definition setTimeout :: "Time \<Rightarrow> ('ty, 'v) SampleReader \<Rightarrow> ('ty, 'v) SampleReader" where
  "setTimeout t s = s\<lparr>timeout := t\<rparr>"

text \<open>
  \<^verbatim>\<open>registerStream\<close> takes \<^verbatim>\<open>int bufferSize\<close> and hands it to a \<^verbatim>\<open>size_t\<close> parameter; the
  conversion is modulo \<open>2 ^ 64\<close> (a 64-bit \<^verbatim>\<open>size_t\<close>).
\<close>

definition size_t_of_int :: "int \<Rightarrow> nat" where
  "size_t_of_int b = nat (b mod 2 ^ 64)"

definition registerStream ::
  "'ty \<Rightarrow> int \<Rightarrow> Time \<Rightarrow> ('ty, 'v) SampleReader \<Rightarrow> int \<times> ('ty, 'v) SampleReader" where
  "registerStream ty bs p s =
     (let s' = s\<lparr>streams := streams s @ [Stream_new ty (size_t_of_int bs) p]\<rparr>
      in (int (length (streams s')) - 1, s'))"

text \<open>
  \<^verbatim>\<open>push<T>(idx, ts, data)\<close>. The result is the error raised, if any, and the state the call
  leaves behind.
\<close>

definition push ::
  "('ty, 'v) SampleReader \<Rightarrow> int \<Rightarrow> 'ty \<Rightarrow> Time \<Rightarrow> 'v \<Rightarrow> error option \<times> ('ty, 'v) SampleReader" where
  "push s idx ty ts data =
     (if idx < 0 then (Some InvalidIndex, s)
      else if ts + timeout s < latest_ts s then (None, s)
      else
        let s1 = (if ts > latest_ts s then s\<lparr>latest_ts := ts\<rparr> else s) in
        if nat idx \<ge> length (streams s1) then (Some OutOfBounds, s1)
        else if elem_type (streams s1 ! nat idx) \<noteq> ty then (Some TypeMismatch, s1)
        else (None, s1\<lparr>streams := (streams s1)[nat idx := Stream_push (streams s1 ! nat idx) ts data]\<rparr>))"

text \<open>
  The \<^verbatim>\<open>do ... while (late && hasData)\<close> loop of \<^verbatim>\<open>step\<close> for the stream at position \<open>i\<close>:
  the stream after the late samples are thrown out, what was appended to \<^verbatim>\<open>items\<close>, and
  what was or-ed into \<^verbatim>\<open>listHasData\<close>.
\<close>

function late_sweep ::
  "Time \<Rightarrow> nat \<Rightarrow> ('ty, 'v) Stream \<Rightarrow> ('ty, 'v) Stream \<times> StreamIndex list \<times> bool" where
  "late_sweep cur i st =
     (let ts = Stream_nextTimeStamp st;
          late = (ts < cur);
          has = Stream_hasData st
      in if late \<and> has then late_sweep cur i (fst (Stream_pop late st))
         else if has \<or> \<not> isNull ts then (st, [\<lparr>time = ts, hasData = has, stream = i\<rparr>], has)
         else (st, [], False))"
  by pat_completeness auto
termination
  by (relation "measure (\<lambda>(cur, i, st). length (buffer st))")
     (auto simp: Stream_pop_def Stream_hasData_def split: list.splits)

declare late_sweep.simps [simp del]

text \<open>The first \<^verbatim>\<open>for\<close> loop of \<^verbatim>\<open>step\<close>, over the streams from position \<open>i\<close> on.\<close>

fun collect ::
  "Time \<Rightarrow> nat \<Rightarrow> ('ty, 'v) Stream list \<Rightarrow> ('ty, 'v) Stream list \<times> StreamIndex list \<times> bool" where
  "collect cur i [] = ([], [], False)"
| "collect cur i (st # sts) =
     (case late_sweep cur i st of (st', its, has) \<Rightarrow>
        (case collect cur (Suc i) sts of (sts', items, listHasData) \<Rightarrow>
           (st' # sts', its @ items, has \<or> listHasData)))"

text \<open>
  The second \<^verbatim>\<open>for\<close> loop of \<^verbatim>\<open>step\<close>, over the sorted \<^verbatim>\<open>items\<close>. An entry's pointer is the
  position of a stream of the aggregator, so \<open>streams s ! stream it\<close> is in range whenever
  the sort returns a rearrangement of its input.
\<close>

fun scan ::
  "('ty, 'v) SampleReader \<Rightarrow> StreamIndex list \<Rightarrow> bool \<times> ('ty, 'v) SampleReader" where
  "scan s [] = (False, s)"
| "scan s (it # its) =
     (if hasData it then
        (case Stream_pop False (streams s ! stream it) of (st', cb) \<Rightarrow>
           (True,
            s\<lparr>streams := (streams s)[stream it := st'],
              delivered := delivered s @ (case cb of None \<Rightarrow> [] | Some (t, v) \<Rightarrow> [(stream it, t, v)]),
              current_ts := time it\<rparr>))
      else if time it + timeout s > latest_ts s then (False, s)
      else scan (s\<lparr>streams := (streams s)[stream it := (streams s ! stream it)\<lparr>overdue := True\<rparr>]\<rparr>) its)"

definition step ::
  "(StreamIndex list \<Rightarrow> StreamIndex list) \<Rightarrow> ('ty, 'v) SampleReader \<Rightarrow> bool \<times> ('ty, 'v) SampleReader" where
  "step srt s =
     (if streams s = [] then (False, s)
      else
        (case collect (current_ts s) 0 (streams s) of (sts', items, listHasData) \<Rightarrow>
           let s1 = s\<lparr>streams := sts'\<rparr> in
           if items = [] \<or> \<not> listHasData then (False, s1)
           else scan s1 (srt items)))"

definition getLatency :: "('ty, 'v) SampleReader \<Rightarrow> Time" where
  "getLatency s = latest_ts s - current_ts s"

definition getCurrentTime :: "('ty, 'v) SampleReader \<Rightarrow> Time" where
  "getCurrentTime s = current_ts s"

definition getLatestTime :: "('ty, 'v) SampleReader \<Rightarrow> Time" where
  "getLatestTime s = latest_ts s"

subsection \<open>Executions\<close>

text \<open>
  A caller's use of one aggregator: a list of calls. The exception for an invalid index
  can be caught, and the aggregator used again; an out-of-bounds read or a failed
  assertion ends the execution, and \<open>run\<close> returns the state reached there.
\<close>

datatype ('ty, 'v) call =
    Push int 'ty Time 'v
  | Step
  | SetTimeout Time
  | RegisterStream 'ty int Time

fun exec_call ::
  "(StreamIndex list \<Rightarrow> StreamIndex list) \<Rightarrow> ('ty, 'v) SampleReader \<Rightarrow> ('ty, 'v) call
     \<Rightarrow> error option \<times> ('ty, 'v) SampleReader" where
  "exec_call srt s (Push idx ty ts data) = push s idx ty ts data"
| "exec_call srt s Step = (None, snd (step srt s))"
| "exec_call srt s (SetTimeout t) = (None, setTimeout t s)"
| "exec_call srt s (RegisterStream ty bs p) = (None, snd (registerStream ty bs p s))"

fun run ::
  "(StreamIndex list \<Rightarrow> StreamIndex list) \<Rightarrow> ('ty, 'v) SampleReader \<Rightarrow> ('ty, 'v) call list
     \<Rightarrow> error option \<times> ('ty, 'v) SampleReader" where
  "run srt s [] = (None, s)"
| "run srt s (c # cs) =
     (case exec_call srt s c of
        (None, s') \<Rightarrow> run srt s' cs
      | (Some InvalidIndex, s') \<Rightarrow> run srt s' cs
      | (Some e, s') \<Rightarrow> (Some e, s'))"

subsection \<open>std::sort in the GNU C++ library\<close>

text \<open>
  The C++ standard library is not part of the repository, and the standard leaves the
  order of equal elements after \<^verbatim>\<open>std::sort\<close> open. To see what the program does with
  candidates of equal time, the routine is also modelled as the GNU C++ library (libstdc++,
  \<^verbatim>\<open>bits/stl_algo.h\<close> and \<^verbatim>\<open>bits/stl_heap.h\<close>) implements it: an introsort that partitions
  ranges of more than 16 elements around a median of three, falls back to a heap sort when
  the depth limit is used up, and finishes with an insertion sort. The array is a list, an
  iterator a position in it, \<open>cmp\<close> the comparison. The loops the library calls unguarded
  have no bounds test in C++, where a sentinel stops them; the tests \<open>first < length xs\<close>
  and \<open>0 < lst\<close> below stand for it.
\<close>

definition iter_swap :: "'a list \<Rightarrow> nat \<Rightarrow> nat \<Rightarrow> 'a list" where
  "iter_swap xs i j = xs[i := xs ! j, j := xs ! i]"

text \<open>\<^verbatim>\<open>__move_median_to_first(result, a, b, c, comp)\<close>\<close>

definition move_median_to_first ::
  "('a \<Rightarrow> 'a \<Rightarrow> bool) \<Rightarrow> 'a list \<Rightarrow> nat \<Rightarrow> nat \<Rightarrow> nat \<Rightarrow> nat \<Rightarrow> 'a list" where
  "move_median_to_first cmp xs result a b c =
     (if cmp (xs ! a) (xs ! b) then
        (if cmp (xs ! b) (xs ! c) then iter_swap xs result b
         else if cmp (xs ! a) (xs ! c) then iter_swap xs result c
         else iter_swap xs result a)
      else if cmp (xs ! a) (xs ! c) then iter_swap xs result a
      else if cmp (xs ! b) (xs ! c) then iter_swap xs result c
      else iter_swap xs result b)"

text \<open>
  \<^verbatim>\<open>__unguarded_partition(first, last, pivot, comp)\<close>, with its two inner loops
  \<^verbatim>\<open>while (comp(first, pivot)) ++first;\<close> and \<^verbatim>\<open>while (comp(pivot, last)) --last;\<close>
  as \<open>scan_up\<close> and \<open>scan_down\<close>. The result is the array and the cut.
\<close>

function scan_up :: "('a \<Rightarrow> 'a \<Rightarrow> bool) \<Rightarrow> 'a list \<Rightarrow> nat \<Rightarrow> nat \<Rightarrow> nat" where
  "scan_up cmp xs pivot first =
     (if first < length xs \<and> cmp (xs ! first) (xs ! pivot)
      then scan_up cmp xs pivot (Suc first) else first)"
  by pat_completeness auto
termination
  by (relation "measure (\<lambda>(cmp, xs, pivot, first). length xs - first)") auto

function scan_down :: "('a \<Rightarrow> 'a \<Rightarrow> bool) \<Rightarrow> 'a list \<Rightarrow> nat \<Rightarrow> nat \<Rightarrow> nat" where
  "scan_down cmp xs pivot lst =
     (if 0 < lst \<and> cmp (xs ! pivot) (xs ! lst)
      then scan_down cmp xs pivot (lst - 1) else lst)"
  by pat_completeness auto
termination
  by (relation "measure (\<lambda>(cmp, xs, pivot, lst). lst)") auto

declare scan_up.simps [simp del] scan_down.simps [simp del]

function unguarded_partition ::
  "('a \<Rightarrow> 'a \<Rightarrow> bool) \<Rightarrow> 'a list \<Rightarrow> nat \<Rightarrow> nat \<Rightarrow> nat \<Rightarrow> 'a list \<times> nat" where
  "unguarded_partition cmp xs first lst pivot =
     (let first' = scan_up cmp xs pivot first;
          lst' = scan_down cmp xs pivot (lst - 1)
      in if \<not> first' < lst' then (xs, first')
         else unguarded_partition cmp (iter_swap xs first' lst') (Suc first') lst' pivot)"
  by pat_completeness auto
termination
proof (relation "measure (\<lambda>(cmp, xs, first, lst, pivot). lst - first)", goal_cases)
  case 1
  then show ?case by simp
next
  case (2 cmp xs first lst pivot x xa)
  have up: "i \<le> scan_up c ys p i" for c :: "'a \<Rightarrow> 'a \<Rightarrow> bool" and ys p i
  proof (induction c ys p i rule: scan_up.induct)
    case (1 c ys p i)
    show ?case
    proof (cases "i < length ys \<and> c (ys ! i) (ys ! p)")
      case True
      then have "Suc i \<le> scan_up c ys p (Suc i)" using 1 by simp
      then show ?thesis using True by (subst scan_up.simps) simp
    next
      case False
      then show ?thesis by (subst scan_up.simps) auto
    qed
  qed
  have down: "scan_down c ys p i \<le> i" for c :: "'a \<Rightarrow> 'a \<Rightarrow> bool" and ys p i
  proof (induction c ys p i rule: scan_down.induct)
    case (1 c ys p i)
    show ?case
    proof (cases "0 < i \<and> c (ys ! p) (ys ! i)")
      case True
      then have "scan_down c ys p (i - 1) \<le> i - 1" using 1 by simp
      then show ?thesis using True by (subst scan_down.simps) simp
    next
      case False
      then show ?thesis by (subst scan_down.simps) auto
    qed
  qed
  show ?case
    using 2 up [of first cmp xs pivot] down [of cmp xs pivot "lst - 1"] by simp
qed

declare unguarded_partition.simps [simp del]

text \<open>\<^verbatim>\<open>__unguarded_partition_pivot(first, last, comp)\<close>\<close>

definition unguarded_partition_pivot ::
  "('a \<Rightarrow> 'a \<Rightarrow> bool) \<Rightarrow> 'a list \<Rightarrow> nat \<Rightarrow> nat \<Rightarrow> 'a list \<times> nat" where
  "unguarded_partition_pivot cmp xs first lst =
     (let mid = first + (lst - first) div 2;
          xs' = move_median_to_first cmp xs first (first + 1) mid (lst - 1)
      in unguarded_partition cmp xs' (first + 1) lst first)"

text \<open>
  The heap routines of \<^verbatim>\<open>bits/stl_heap.h\<close>: \<^verbatim>\<open>__push_heap\<close>, \<^verbatim>\<open>__adjust_heap\<close> (its
  \<^verbatim>\<open>while\<close> loop is \<open>sift_down\<close>), \<^verbatim>\<open>__make_heap\<close>, \<^verbatim>\<open>__pop_heap\<close> and \<^verbatim>\<open>__sort_heap\<close>; then
  \<^verbatim>\<open>__heap_select\<close> and \<^verbatim>\<open>__partial_sort\<close>.
\<close>

function push_heap ::
  "('a \<Rightarrow> 'a \<Rightarrow> bool) \<Rightarrow> 'a list \<Rightarrow> nat \<Rightarrow> nat \<Rightarrow> nat \<Rightarrow> 'a \<Rightarrow> 'a list" where
  "push_heap cmp xs first holeIndex topIndex val =
     (let parent = (holeIndex - 1) div 2
      in if holeIndex > topIndex \<and> cmp (xs ! (first + parent)) val
         then push_heap cmp (xs[first + holeIndex := xs ! (first + parent)]) first parent topIndex val
         else xs[first + holeIndex := val])"
  by pat_completeness auto
termination
  by (relation "measure (\<lambda>(cmp, xs, first, holeIndex, topIndex, val). holeIndex)") auto

declare push_heap.simps [simp del]

function sift_down ::
  "('a \<Rightarrow> 'a \<Rightarrow> bool) \<Rightarrow> 'a list \<Rightarrow> nat \<Rightarrow> nat \<Rightarrow> nat \<Rightarrow> nat \<Rightarrow> 'a list \<times> nat \<times> nat" where
  "sift_down cmp xs first len holeIndex secondChild =
     (if secondChild < (len - 1) div 2 then
        let sc = 2 * (secondChild + 1);
            sc' = (if cmp (xs ! (first + sc)) (xs ! (first + (sc - 1))) then sc - 1 else sc)
        in sift_down cmp (xs[first + holeIndex := xs ! (first + sc')]) first len sc' sc'
      else (xs, holeIndex, secondChild))"
  by pat_completeness auto
termination
  by (relation "measure (\<lambda>(cmp, xs, first, len, holeIndex, secondChild). len - secondChild)") auto

declare sift_down.simps [simp del]

definition adjust_heap ::
  "('a \<Rightarrow> 'a \<Rightarrow> bool) \<Rightarrow> 'a list \<Rightarrow> nat \<Rightarrow> nat \<Rightarrow> nat \<Rightarrow> 'a \<Rightarrow> 'a list" where
  "adjust_heap cmp xs first holeIndex len val =
     (case sift_down cmp xs first len holeIndex holeIndex of (xs1, hole1, sc1) \<Rightarrow>
        if even len \<and> sc1 = (len - 2) div 2
        then push_heap cmp (xs1[first + hole1 := xs1 ! (first + (2 * (sc1 + 1) - 1))])
               first (2 * (sc1 + 1) - 1) holeIndex val
        else push_heap cmp xs1 first hole1 holeIndex val)"

fun make_heap_loop ::
  "('a \<Rightarrow> 'a \<Rightarrow> bool) \<Rightarrow> 'a list \<Rightarrow> nat \<Rightarrow> nat \<Rightarrow> nat \<Rightarrow> 'a list" where
  "make_heap_loop cmp xs first len 0 = adjust_heap cmp xs first 0 len (xs ! first)"
| "make_heap_loop cmp xs first len (Suc parent) =
     make_heap_loop cmp
       (adjust_heap cmp xs first (Suc parent) len (xs ! (first + Suc parent))) first len parent"

definition make_heap :: "('a \<Rightarrow> 'a \<Rightarrow> bool) \<Rightarrow> 'a list \<Rightarrow> nat \<Rightarrow> nat \<Rightarrow> 'a list" where
  "make_heap cmp xs first lst =
     (if lst - first < 2 then xs
      else make_heap_loop cmp xs first (lst - first) ((lst - first - 2) div 2))"

definition pop_heap ::
  "('a \<Rightarrow> 'a \<Rightarrow> bool) \<Rightarrow> 'a list \<Rightarrow> nat \<Rightarrow> nat \<Rightarrow> nat \<Rightarrow> 'a list" where
  "pop_heap cmp xs first lst result =
     adjust_heap cmp (xs[result := xs ! first]) first 0 (lst - first) (xs ! result)"

function sort_heap :: "('a \<Rightarrow> 'a \<Rightarrow> bool) \<Rightarrow> 'a list \<Rightarrow> nat \<Rightarrow> nat \<Rightarrow> 'a list" where
  "sort_heap cmp xs first lst =
     (if lst - first > 1
      then sort_heap cmp (pop_heap cmp xs first (lst - 1) (lst - 1)) first (lst - 1)
      else xs)"
  by pat_completeness auto
termination
  by (relation "measure (\<lambda>(cmp, xs, first, lst). lst - first)") auto

declare sort_heap.simps [simp del]

definition heap_select ::
  "('a \<Rightarrow> 'a \<Rightarrow> bool) \<Rightarrow> 'a list \<Rightarrow> nat \<Rightarrow> nat \<Rightarrow> nat \<Rightarrow> 'a list" where
  "heap_select cmp xs first middle lst =
     foldl (\<lambda>ys i. if cmp (ys ! i) (ys ! first) then pop_heap cmp ys first middle i else ys)
       (make_heap cmp xs first middle) [middle ..< lst]"

definition partial_sort ::
  "('a \<Rightarrow> 'a \<Rightarrow> bool) \<Rightarrow> 'a list \<Rightarrow> nat \<Rightarrow> nat \<Rightarrow> nat \<Rightarrow> 'a list" where
  "partial_sort cmp xs first middle lst =
     sort_heap cmp (heap_select cmp xs first middle lst) first middle"

text \<open>
  \<^verbatim>\<open>__introsort_loop(first, last, depth_limit, comp)\<close>: the loop continues on the left part
  with the depth limit it has just decreased.
\<close>

fun introsort_loop ::
  "('a \<Rightarrow> 'a \<Rightarrow> bool) \<Rightarrow> 'a list \<Rightarrow> nat \<Rightarrow> nat \<Rightarrow> nat \<Rightarrow> 'a list" where
  "introsort_loop cmp xs first lst 0 =
     (if lst - first > 16 then partial_sort cmp xs first lst lst else xs)"
| "introsort_loop cmp xs first lst (Suc depth_limit) =
     (if lst - first > 16 then
        (case unguarded_partition_pivot cmp xs first lst of (xs', cutp) \<Rightarrow>
           introsort_loop cmp (introsort_loop cmp xs' cutp lst depth_limit) first cutp depth_limit)
      else xs)"

text \<open>
  \<^verbatim>\<open>__unguarded_linear_insert\<close>, \<^verbatim>\<open>__insertion_sort\<close> (with \<^verbatim>\<open>move_backward\<close> written as
  the list it leaves), \<^verbatim>\<open>__unguarded_insertion_sort\<close> and \<^verbatim>\<open>__final_insertion_sort\<close>.
\<close>

function unguarded_linear_insert_loop ::
  "('a \<Rightarrow> 'a \<Rightarrow> bool) \<Rightarrow> 'a \<Rightarrow> 'a list \<Rightarrow> nat \<Rightarrow> 'a list" where
  "unguarded_linear_insert_loop cmp val xs lst =
     (if 0 < lst \<and> cmp val (xs ! (lst - 1))
      then unguarded_linear_insert_loop cmp val (xs[lst := xs ! (lst - 1)]) (lst - 1)
      else xs[lst := val])"
  by pat_completeness auto
termination
  by (relation "measure (\<lambda>(cmp, val, xs, lst). lst)") auto

declare unguarded_linear_insert_loop.simps [simp del]

definition unguarded_linear_insert :: "('a \<Rightarrow> 'a \<Rightarrow> bool) \<Rightarrow> 'a list \<Rightarrow> nat \<Rightarrow> 'a list" where
  "unguarded_linear_insert cmp xs lst = unguarded_linear_insert_loop cmp (xs ! lst) xs lst"

definition insertion_sort :: "('a \<Rightarrow> 'a \<Rightarrow> bool) \<Rightarrow> 'a list \<Rightarrow> nat \<Rightarrow> nat \<Rightarrow> 'a list" where
  "insertion_sort cmp xs first lst =
     foldl (\<lambda>ys i.
         if cmp (ys ! i) (ys ! first)
         then take first ys @ ys ! i # take (i - first) (drop first ys) @ drop (Suc i) ys
         else unguarded_linear_insert cmp ys i)
       xs [Suc first ..< lst]"

definition unguarded_insertion_sort ::
  "('a \<Rightarrow> 'a \<Rightarrow> bool) \<Rightarrow> 'a list \<Rightarrow> nat \<Rightarrow> nat \<Rightarrow> 'a list" where
  "unguarded_insertion_sort cmp xs first lst =
     foldl (\<lambda>ys i. unguarded_linear_insert cmp ys i) xs [first ..< lst]"

definition final_insertion_sort ::
  "('a \<Rightarrow> 'a \<Rightarrow> bool) \<Rightarrow> 'a list \<Rightarrow> nat \<Rightarrow> nat \<Rightarrow> 'a list" where
  "final_insertion_sort cmp xs first lst =
     (if lst - first > 16
      then unguarded_insertion_sort cmp (insertion_sort cmp xs first (first + 16)) (first + 16) lst
      else insertion_sort cmp xs first lst)"

text \<open>\<^verbatim>\<open>__lg(n)\<close>, the position of the highest set bit, and \<^verbatim>\<open>std::sort\<close> itself.\<close>

fun lg :: "nat \<Rightarrow> nat" where
  "lg n = (if n < 2 then 0 else Suc (lg (n div 2)))"

declare lg.simps [simp del]

definition gnu_sort :: "('a \<Rightarrow> 'a \<Rightarrow> bool) \<Rightarrow> 'a list \<Rightarrow> 'a list" where
  "gnu_sort cmp xs =
     (if xs = [] then xs
      else final_insertion_sort cmp
             (introsort_loop cmp xs 0 (length xs) (lg (length xs) * 2)) 0 (length xs))"

text \<open>\<^verbatim>\<open>StreamIndex::operator<\<close>, and \<^verbatim>\<open>std::sort(items.begin(), items.end())\<close> with it.\<close>

definition operator_less :: "StreamIndex \<Rightarrow> StreamIndex \<Rightarrow> bool" where
  "operator_less a b = (time a < time b)"

definition gnu_std_sort :: "StreamIndex list \<Rightarrow> StreamIndex list" where
  "gnu_std_sort items = gnu_sort operator_less items"

subsection \<open>Notions used in the proofs\<close>

text \<open>
  Closed forms of the two loops of \<^verbatim>\<open>step\<close>, proved equal to the loops below: the stream once
  its late samples are gone, the entry it contributes to \<^verbatim>\<open>items\<close>, and \<^verbatim>\<open>items\<close> itself.
\<close>

definition swept :: "Time \<Rightarrow> ('ty, 'v) Stream \<Rightarrow> ('ty, 'v) Stream" where
  "swept cur st = st\<lparr>buffer := dropWhile (\<lambda>x. fst x < cur) (buffer st)\<rparr>"

definition candidate :: "nat \<Rightarrow> ('ty, 'v) Stream \<Rightarrow> StreamIndex list" where
  "candidate i st =
     (if Stream_hasData st \<or> \<not> isNull (Stream_nextTimeStamp st)
      then [\<lparr>time = Stream_nextTimeStamp st, hasData = Stream_hasData st, stream = i\<rparr>] else [])"

fun candidates :: "nat \<Rightarrow> ('ty, 'v) Stream list \<Rightarrow> StreamIndex list" where
  "candidates i [] = []"
| "candidates i (st # sts) = candidate i st @ candidates (Suc i) sts"

text \<open>An entry of \<^verbatim>\<open>items\<close> agrees with the stream it points to.\<close>

definition items_ok :: "('ty, 'v) Stream list \<Rightarrow> StreamIndex list \<Rightarrow> bool" where
  "items_ok sts its =
     (\<forall>it \<in> set its. stream it < length sts
         \<and> time it = Stream_nextTimeStamp (sts ! stream it)
         \<and> hasData it = Stream_hasData (sts ! stream it))"

text \<open>The part of a stream that \<^verbatim>\<open>step\<close> never writes.\<close>

definition core :: "('ty, 'v) Stream \<Rightarrow> 'ty \<times> nat \<times> Time \<times> Time" where
  "core st = (elem_type st, bufferSize st, period st, lastTime st)"

text \<open>The samples of a buffer that the late sweep keeps.\<close>

definition fresh :: "Time \<Rightarrow> (Time \<times> 'v) list \<Rightarrow> (Time \<times> 'v) list" where
  "fresh cur b = dropWhile (\<lambda>x. fst x < cur) b"

text \<open>The invariants behind the claims about timestamps and buffer sizes.\<close>

definition ts_of :: "nat \<times> Time \<times> 'v \<Rightarrow> Time" where
  "ts_of e = fst (snd e)"

definition inv_order :: "('ty, 'v) SampleReader \<Rightarrow> bool" where
  "inv_order s \<longleftrightarrow>
     sorted (map ts_of (delivered s)) \<and> list_all (\<lambda>e. ts_of e \<le> current_ts s) (delivered s)"

definition inv_time :: "('ty, 'v) SampleReader \<Rightarrow> bool" where
  "inv_time s \<longleftrightarrow>
     current_ts s \<le> latest_ts s
     \<and> list_all (\<lambda>st. list_all (\<lambda>x. fst x \<le> latest_ts s) (buffer st)) (streams s)"

definition inv_cap :: "('ty, 'v) SampleReader \<Rightarrow> bool" where
  "inv_cap s \<longleftrightarrow>
     list_all (\<lambda>st. bufferSize st = 0 \<or> length (buffer st) \<le> bufferSize st) (streams s)"

text \<open>
  The calls of an execution that were carried out, each with the state it was made in; and
  what it is for a logged callback invocation to stem from a push that was not stale when
  it was made.
\<close>

fun trace ::
  "(StreamIndex list \<Rightarrow> StreamIndex list) \<Rightarrow> ('ty, 'v) SampleReader \<Rightarrow> ('ty, 'v) call list
     \<Rightarrow> (('ty, 'v) SampleReader \<times> ('ty, 'v) call) list" where
  "trace srt s [] = []"
| "trace srt s (c # cs) =
     (s, c) # (case exec_call srt s c of
                 (None, s') \<Rightarrow> trace srt s' cs
               | (Some InvalidIndex, s') \<Rightarrow> trace srt s' cs
               | (Some e, s') \<Rightarrow> [])"

fun pushed_in_time ::
  "('ty, 'v) SampleReader \<times> ('ty, 'v) call \<Rightarrow> nat \<times> Time \<times> 'v \<Rightarrow> bool" where
  "pushed_in_time (s, Push idx ty ts d) e =
     (0 \<le> idx \<and> e = (nat idx, ts, d) \<and> \<not> ts + timeout s < latest_ts s)"
| "pushed_in_time (s, Step) e = False"
| "pushed_in_time (s, SetTimeout t) e = False"
| "pushed_in_time (s, RegisterStream ty bs p) e = False"

text \<open>A sample is known to a state when it is in a buffer or in the log.\<close>

definition known :: "('ty, 'v) SampleReader \<Rightarrow> nat \<times> Time \<times> 'v \<Rightarrow> bool" where
  "known s e \<longleftrightarrow>
     e \<in> set (delivered s)
     \<or> (fst e < length (streams s) \<and> snd e \<in> set (buffer (streams s ! fst e)))"

text \<open>\<open>n\<close> calls of \<^verbatim>\<open>step\<close> in a row, with the results they returned.\<close>

fun steps ::
  "(StreamIndex list \<Rightarrow> StreamIndex list) \<Rightarrow> nat \<Rightarrow> ('ty, 'v) SampleReader
     \<Rightarrow> bool list \<times> ('ty, 'v) SampleReader" where
  "steps srt 0 s = ([], s)"
| "steps srt (Suc n) s =
     (case step srt s of (b, s') \<Rightarrow>
        (case steps srt n s' of (bs, s'') \<Rightarrow> (b # bs, s'')))"

text \<open>
  No sample of the list is stale when it is pushed, the samples being pushed in order to
  an aggregator whose \<open>latest_ts\<close> is \<open>l\<close> and whose timeout is \<open>T\<close>.
\<close>

fun no_expiry :: "Time \<Rightarrow> Time \<Rightarrow> (Time \<times> 'v) list \<Rightarrow> bool" where
  "no_expiry T l [] = True"
| "no_expiry T l (x # xs) = (\<not> fst x + T < l \<and> no_expiry T (max l (fst x)) xs)"

text \<open>The pushes of a list of samples to stream 0, and the log entries of their delivery.\<close>

definition push_calls :: "'ty \<Rightarrow> (Time \<times> 'v) list \<Rightarrow> ('ty, 'v) call list" where
  "push_calls ty xs = map (\<lambda>x. Push 0 ty (fst x) (snd x)) xs"

definition on_stream0 :: "(Time \<times> 'v) list \<Rightarrow> (nat \<times> Time \<times> 'v) list" where
  "on_stream0 xs = map (\<lambda>x. (0, fst x, snd x)) xs"

subsection \<open>Examples\<close>

text \<open>Concrete aggregators and call sequences, for the examples.\<close>

definition agg1 :: "(string, nat) SampleReader" where
  "agg1 = snd (registerStream ''int'' 10 0 (SampleReader_new 1))"

definition agg1_at10 :: "(string, nat) SampleReader" where
  "agg1_at10 = snd (push agg1 0 ''int'' 10 100)"

definition interleaved_calls :: "(string, nat) call list" where
  "interleaved_calls =
     [RegisterStream ''int'' 10 0, RegisterStream ''int'' 10 0,
      Push 1 ''int'' 2 20, Push 0 ''int'' 1 10, Push 0 ''int'' 4 12, Step, Step, Step]"

definition overflow_calls :: "(string, nat) call list" where
  "overflow_calls = [RegisterStream ''int'' 2 0, Push 0 ''int'' 1 11, Push 0 ''int'' 2 22]"

definition full_stream :: "(string, nat) Stream" where
  "full_stream =
     \<lparr>overdue = False, elem_type = ''int'', buffer = [(1, 11), (2, 22)], bufferSize = 2,
      period = 0, lastTime = 2\<rparr>"

definition stale_calls :: "(string, nat) call list" where
  "stale_calls =
     [RegisterStream ''int'' 10 0, RegisterStream ''int'' 10 0,
      Push 0 ''int'' 10 1, Push 1 ''int'' 7 2, Step, Step]"

definition stale_state :: "(string, nat) SampleReader" where
  "stale_state = snd (run (sort_key time) (SampleReader_new 2) (take 3 stale_calls))"

definition round_trip_samples :: "(Time \<times> nat) list" where
  "round_trip_samples = [(1, 11), (1, 12), (3, 13)]"

text \<open>
  Seventeen streams, each holding one sample with timestamp 1: the state after seventeen
  registrations and one push to each stream (\<open>tied_partial n k\<close> is the state when the
  first \<open>k\<close> of \<open>n\<close> streams have their sample).
\<close>

definition tied_stream :: "nat \<Rightarrow> (string, nat) Stream" where
  "tied_stream i =
     \<lparr>overdue = False, elem_type = ''int'', buffer = [(1, 100 + i)], bufferSize = 10,
      period = 0, lastTime = 1\<rparr>"

definition tied_partial :: "nat \<Rightarrow> nat \<Rightarrow> (string, nat) SampleReader" where
  "tied_partial n k =
     \<lparr>streams = map tied_stream [0 ..< k] @ replicate (n - k) (Stream_new ''int'' 10 0),
      timeout = 2, latest_ts = (if k = 0 then 0 else 1), current_ts = 0, delivered = []\<rparr>"

definition tied_state :: "(string, nat) SampleReader" where
  "tied_state =
     \<lparr>streams = map tied_stream [0 ..< 17], timeout = 2, latest_ts = 1, current_ts = 0,
      delivered = []\<rparr>"

definition tied_calls :: "(string, nat) call list" where
  "tied_calls =
     replicate 17 (RegisterStream ''int'' 10 0)
     @ map (\<lambda>i. Push (int i) ''int'' 1 (100 + i)) [0 ..< 17]"

text \<open>
  Two streams whose fronts differ in time, the later registered one holding the earlier
  sample; and the state one \<^verbatim>\<open>step\<close> later.
\<close>

definition apart_state :: "(string, nat) SampleReader" where
  "apart_state =
     \<lparr>streams = [\<lparr>overdue = False, elem_type = ''int'', buffer = [(2, 10)], bufferSize = 10,
                  period = 0, lastTime = 2\<rparr>,
                 \<lparr>overdue = False, elem_type = ''int'', buffer = [(1, 20)], bufferSize = 10,
                  period = 0, lastTime = 1\<rparr>],
      timeout = 2, latest_ts = 2, current_ts = 0, delivered = []\<rparr>"

definition apart_after :: "(string, nat) SampleReader" where
  "apart_after =
     \<lparr>streams = [\<lparr>overdue = False, elem_type = ''int'', buffer = [(2, 10)], bufferSize = 10,
                  period = 0, lastTime = 2\<rparr>,
                 \<lparr>overdue = False, elem_type = ''int'', buffer = [], bufferSize = 10,
                  period = 0, lastTime = 1\<rparr>],
      timeout = 2, latest_ts = 2, current_ts = 1, delivered = [(1, 1, 20)]\<rparr>"

text \<open>Two streams that each hold one sample with timestamp 1.\<close>

definition two_tied_state :: "(string, nat) SampleReader" where
  "two_tied_state =
     \<lparr>streams = [\<lparr>overdue = False, elem_type = ''int'', buffer = [(1, 10)], bufferSize = 10,
                  period = 0, lastTime = 1\<rparr>,
                 \<lparr>overdue = False, elem_type = ''int'', buffer = [(1, 20)], bufferSize = 10,
                  period = 0, lastTime = 1\<rparr>],
      timeout = 2, latest_ts = 1, current_ts = 0, delivered = []\<rparr>"

section \<open>Properties\<close>

subsection \<open>What the loops of step compute\<close>

lemma late_sweep_eq:
  "late_sweep cur i st = (swept cur st, candidate i (swept cur st), Stream_hasData (swept cur st))"
proof (induction "buffer st" arbitrary: st)
  case Nil
  then have "buffer st = []" by simp
  then show ?case
    by (subst late_sweep.simps)
       (simp add: swept_def candidate_def Stream_hasData_def Stream_nextTimeStamp_def)
next
  case (Cons x xs)
  then have b: "buffer st = x # xs" by simp
  show ?case
  proof (cases "fst x < cur")
    case True
    have p: "fst (Stream_pop True st) = st\<lparr>buffer := xs\<rparr>"
      by (simp add: Stream_pop_def b)
    have "late_sweep cur i st = late_sweep cur i (st\<lparr>buffer := xs\<rparr>)"
      by (subst late_sweep.simps)
         (simp add: Stream_hasData_def Stream_nextTimeStamp_def b True p)
    also have "\<dots> = (swept cur (st\<lparr>buffer := xs\<rparr>), candidate i (swept cur (st\<lparr>buffer := xs\<rparr>)),
                     Stream_hasData (swept cur (st\<lparr>buffer := xs\<rparr>)))"
      using Cons.hyps(1) [of "st\<lparr>buffer := xs\<rparr>"] by simp
    also have "swept cur (st\<lparr>buffer := xs\<rparr>) = swept cur st"
      by (simp add: swept_def b True)
    finally show ?thesis .
  next
    case False
    have "swept cur st = st" by (simp add: swept_def b False)
    then show ?thesis
      by (subst late_sweep.simps)
         (simp add: candidate_def Stream_hasData_def Stream_nextTimeStamp_def b False)
  qed
qed

lemma collect_eq:
  "collect cur i sts =
     (map (swept cur) sts, candidates i (map (swept cur) sts),
      list_ex Stream_hasData (map (swept cur) sts))"
  by (induction sts arbitrary: i) (simp_all add: late_sweep_eq)

lemma candidates_mem:
  "it \<in> set (candidates i sts) \<longleftrightarrow>
     (\<exists>j < length sts. it \<in> set (candidate (i + j) (sts ! j)))"
proof (induction sts arbitrary: i)
  case Nil
  then show ?case by simp
next
  case (Cons st sts)
  show ?case
  proof
    assume "it \<in> set (candidates i (st # sts))"
    then consider "it \<in> set (candidate i st)" | "it \<in> set (candidates (Suc i) sts)"
      by auto
    then show "\<exists>j < length (st # sts). it \<in> set (candidate (i + j) ((st # sts) ! j))"
    proof cases
      case 1
      then have "0 < length (st # sts) \<and> it \<in> set (candidate (i + 0) ((st # sts) ! 0))" by simp
      then show ?thesis by blast
    next
      case 2
      then obtain j where "j < length sts" "it \<in> set (candidate (Suc i + j) (sts ! j))"
        using Cons.IH by blast
      then have "Suc j < length (st # sts) \<and> it \<in> set (candidate (i + Suc j) ((st # sts) ! Suc j))"
        by simp
      then show ?thesis by blast
    qed
  next
    assume "\<exists>j < length (st # sts). it \<in> set (candidate (i + j) ((st # sts) ! j))"
    then obtain j where j: "j < length (st # sts)" "it \<in> set (candidate (i + j) ((st # sts) ! j))"
      by blast
    show "it \<in> set (candidates i (st # sts))"
    proof (cases j)
      case 0
      with j show ?thesis by simp
    next
      case (Suc k)
      with j have "k < length sts" "it \<in> set (candidate (Suc i + k) (sts ! k))" by simp_all
      then have "it \<in> set (candidates (Suc i) sts)" using Cons.IH by blast
      then show ?thesis by simp
    qed
  qed
qed

lemma candidates_ok: "items_ok sts (candidates 0 sts)"
  unfolding items_ok_def
proof
  fix it assume "it \<in> set (candidates 0 sts)"
  then obtain j where j: "j < length sts" "it \<in> set (candidate (0 + j) (sts ! j))"
    using candidates_mem by blast
  then have "it = \<lparr>time = Stream_nextTimeStamp (sts ! j), hasData = Stream_hasData (sts ! j), stream = j\<rparr>"
    by (auto simp: candidate_def split: if_splits)
  with j show "stream it < length sts
         \<and> time it = Stream_nextTimeStamp (sts ! stream it)
         \<and> hasData it = Stream_hasData (sts ! stream it)" by simp
qed

lemma candidates_has:
  assumes "j < length sts" "Stream_hasData (sts ! j)"
  shows "\<lparr>time = Stream_nextTimeStamp (sts ! j), hasData = True, stream = j\<rparr> \<in> set (candidates 0 sts)"
proof -
  have "\<lparr>time = Stream_nextTimeStamp (sts ! j), hasData = True, stream = j\<rparr>
          \<in> set (candidate (0 + j) (sts ! j))"
    using assms by (simp add: candidate_def)
  with assms(1) show ?thesis using candidates_mem by blast
qed

lemma step_eq:
  "step srt s =
     (if streams s = [] then (False, s)
      else
        let sts' = map (swept (current_ts s)) (streams s) in
        if candidates 0 sts' = [] \<or> \<not> list_ex Stream_hasData sts' then (False, s\<lparr>streams := sts'\<rparr>)
        else scan (s\<lparr>streams := sts'\<rparr>) (srt (candidates 0 sts')))"
  by (simp add: step_def collect_eq Let_def)

lemma map_update_same: "f y = f (xs ! i) \<Longrightarrow> map f (xs[i := y]) = map f xs"
  by (induction xs arbitrary: i) (auto split: nat.splits)

lemma items_ok_cong:
  "items_ok sts its \<Longrightarrow> length sts' = length sts \<Longrightarrow> map buffer sts' = map buffer sts
     \<Longrightarrow> map core sts' = map core sts \<Longrightarrow> items_ok sts' its"
  unfolding items_ok_def
proof
  fix it
  assume a: "\<forall>it\<in>set its. stream it < length sts \<and> time it = Stream_nextTimeStamp (sts ! stream it) \<and>
       hasData it = Stream_hasData (sts ! stream it)"
    and l: "length sts' = length sts" and b: "map buffer sts' = map buffer sts"
    and c: "map core sts' = map core sts" and i: "it \<in> set its"
  from a i have lt: "stream it < length sts" by blast
  have b1: "buffer (sts' ! stream it) = buffer (sts ! stream it)"
    using lt l b by (metis nth_map)
  have "core (sts' ! stream it) = core (sts ! stream it)"
    using lt l c by (metis nth_map)
  then have c1: "lastTime (sts' ! stream it) = lastTime (sts ! stream it)"
      "period (sts' ! stream it) = period (sts ! stream it)"
    by (simp_all add: core_def)
  show "stream it < length sts' \<and> time it = Stream_nextTimeStamp (sts' ! stream it) \<and>
       hasData it = Stream_hasData (sts' ! stream it)"
    using a i l b1 c1 by (auto simp: Stream_nextTimeStamp_def Stream_hasData_def split: list.splits)
qed

lemma scan_effect:
  "items_ok (streams s) its \<Longrightarrow> scan s its = (b, s') \<Longrightarrow>
     latest_ts s' = latest_ts s \<and> timeout s' = timeout s
     \<and> length (streams s') = length (streams s)
     \<and> map core (streams s') = map core (streams s)
     \<and> (if b then
          (\<exists>pre it post v rest. its = pre @ it # post \<and> (\<forall>x \<in> set pre. \<not> hasData x) \<and> hasData it
             \<and> buffer (streams s ! stream it) = (time it, v) # rest
             \<and> delivered s' = delivered s @ [(stream it, time it, v)]
             \<and> current_ts s' = time it
             \<and> map buffer (streams s') = (map buffer (streams s))[stream it := rest])
        else delivered s' = delivered s \<and> current_ts s' = current_ts s
             \<and> map buffer (streams s') = map buffer (streams s))"
proof (induction its arbitrary: s)
  case Nil
  then show ?case by auto
next
  case (Cons it its)
  from Cons.prems(1) have ok: "stream it < length (streams s)"
      "time it = Stream_nextTimeStamp (streams s ! stream it)"
      "hasData it = Stream_hasData (streams s ! stream it)"
    by (simp_all add: items_ok_def)
  show ?case
  proof (cases "hasData it")
    case True
    with ok obtain x rest where b: "buffer (streams s ! stream it) = x # rest"
      by (auto simp: Stream_hasData_def neq_Nil_conv)
    with ok have tx: "fst x = time it" by (simp add: Stream_nextTimeStamp_def)
    obtain v where x: "x = (time it, v)" using tx by (cases x) auto
    have p: "Stream_pop False (streams s ! stream it)
               = ((streams s ! stream it)\<lparr>overdue := False, buffer := rest\<rparr>, Some x)"
      by (simp add: Stream_pop_def b)
    from Cons.prems(2) True p x
    have s': "s' = s\<lparr>streams := (streams s)[stream it := (streams s ! stream it)\<lparr>overdue := False, buffer := rest\<rparr>],
                    delivered := delivered s @ [(stream it, time it, v)],
                    current_ts := time it\<rparr>" and bt: "b"
      by auto
    have c: "map core (streams s') = map core (streams s)"
      unfolding s' by (simp add: map_update_same core_def)
    have mb: "map buffer (streams s') = (map buffer (streams s))[stream it := rest]"
      unfolding s' by (simp add: map_update)
    have "it # its = [] @ it # its \<and> (\<forall>x \<in> set []. \<not> hasData x) \<and> hasData it
             \<and> buffer (streams s ! stream it) = (time it, v) # rest
             \<and> delivered s' = delivered s @ [(stream it, time it, v)]
             \<and> current_ts s' = time it
             \<and> map buffer (streams s') = (map buffer (streams s))[stream it := rest]"
      using True b x mb unfolding s' by simp
    then have "\<exists>pre it' post v rest. it # its = pre @ it' # post \<and> (\<forall>x \<in> set pre. \<not> hasData x) \<and> hasData it'
             \<and> buffer (streams s ! stream it') = (time it', v) # rest
             \<and> delivered s' = delivered s @ [(stream it', time it', v)]
             \<and> current_ts s' = time it'
             \<and> map buffer (streams s') = (map buffer (streams s))[stream it' := rest]"
      by blast
    moreover have "latest_ts s' = latest_ts s \<and> timeout s' = timeout s
     \<and> length (streams s') = length (streams s)" unfolding s' by simp
    ultimately show ?thesis using bt c by simp
  next
    case False
    show ?thesis
    proof (cases "time it + timeout s > latest_ts s")
      case True
      with False Cons.prems(2) have "s' = s" "\<not> b" by auto
      then show ?thesis by simp
    next
      case nt: False
      define s1 where "s1 = s\<lparr>streams := (streams s)[stream it := (streams s ! stream it)\<lparr>overdue := True\<rparr>]\<rparr>"
      have sc: "scan s1 its = (b, s')"
        using Cons.prems(2) False nt by (simp add: s1_def)
      have l1: "length (streams s1) = length (streams s)" by (simp add: s1_def)
      have b1: "map buffer (streams s1) = map buffer (streams s)"
        by (simp add: s1_def map_update_same)
      have c1: "map core (streams s1) = map core (streams s)"
        by (simp add: s1_def map_update_same core_def)
      have "items_ok (streams s) its" using Cons.prems(1) by (simp add: items_ok_def)
      then have ok1: "items_ok (streams s1) its"
        using items_ok_cong l1 b1 c1 by blast
      have o1: "latest_ts s1 = latest_ts s" "timeout s1 = timeout s"
         "delivered s1 = delivered s" "current_ts s1 = current_ts s"
        by (simp_all add: s1_def)
      note IH = Cons.IH [OF ok1 sc]
      show ?thesis
      proof (cases b)
        case True
        with IH obtain pre it' post v rest where
          d: "its = pre @ it' # post" "\<forall>x \<in> set pre. \<not> hasData x" "hasData it'"
             "buffer (streams s1 ! stream it') = (time it', v) # rest"
             "delivered s' = delivered s1 @ [(stream it', time it', v)]"
             "current_ts s' = time it'"
             "map buffer (streams s') = (map buffer (streams s1))[stream it' := rest]"
          by auto
        have "it' \<in> set its" using d(1) by simp
        with ok1 have "stream it' < length (streams s1)" by (simp add: items_ok_def)
        then have bb: "buffer (streams s1 ! stream it') = buffer (streams s ! stream it')"
          using b1 l1 by (metis nth_map)
        have "it # its = (it # pre) @ it' # post \<and> (\<forall>x \<in> set (it # pre). \<not> hasData x) \<and> hasData it'
             \<and> buffer (streams s ! stream it') = (time it', v) # rest
             \<and> delivered s' = delivered s @ [(stream it', time it', v)]
             \<and> current_ts s' = time it'
             \<and> map buffer (streams s') = (map buffer (streams s))[stream it' := rest]"
          using d False bb b1 o1 by simp
        then have "\<exists>pre it' post v rest. it # its = pre @ it' # post \<and> (\<forall>x \<in> set pre. \<not> hasData x) \<and> hasData it'
             \<and> buffer (streams s ! stream it') = (time it', v) # rest
             \<and> delivered s' = delivered s @ [(stream it', time it', v)]
             \<and> current_ts s' = time it'
             \<and> map buffer (streams s') = (map buffer (streams s))[stream it' := rest]"
          by blast
        then show ?thesis using IH True l1 c1 o1 by simp
      next
        case False
        then show ?thesis using IH l1 b1 c1 o1 by simp
      qed
    qed
  qed
qed

lemma buffer_swept: "buffer (swept cur st) = fresh cur (buffer st)"
  by (simp add: swept_def fresh_def)

lemma core_swept: "core (swept cur st) = core st"
  by (simp add: swept_def core_def)

lemma std_sort_set: "std_sort srt \<Longrightarrow> set (srt xs) = set xs"
  unfolding std_sort_def by (metis set_mset_mset)

lemma std_sort_sorted: "std_sort srt \<Longrightarrow> sorted_wrt (\<lambda>a b. \<not> time b < time a) (srt xs)"
  unfolding std_sort_def by blast

lemma step_effect:
  assumes srt: "std_sort srt" and st: "step srt s = (b, s')"
  shows "latest_ts s' = latest_ts s \<and> timeout s' = timeout s
     \<and> length (streams s') = length (streams s)
     \<and> map core (streams s') = map core (streams s)
     \<and> (if b then
          (\<exists>i t v rest. i < length (streams s)
             \<and> fresh (current_ts s) (buffer (streams s ! i)) = (t, v) # rest
             \<and> delivered s' = delivered s @ [(i, t, v)]
             \<and> current_ts s' = t
             \<and> map buffer (streams s') = (map (fresh (current_ts s) \<circ> buffer) (streams s))[i := rest]
             \<and> (\<forall>j < length (streams s). \<forall>x xs.
                   fresh (current_ts s) (buffer (streams s ! j)) = x # xs \<longrightarrow> t \<le> fst x))
        else delivered s' = delivered s \<and> current_ts s' = current_ts s
             \<and> map buffer (streams s') = map (fresh (current_ts s) \<circ> buffer) (streams s))"
proof -
  define cur where "cur = current_ts s"
  define sts' where "sts' = map (swept cur) (streams s)"
  define s1 where "s1 = s\<lparr>streams := sts'\<rparr>"
  define its where "its = srt (candidates 0 sts')"
  have len: "length sts' = length (streams s)" by (simp add: sts'_def)
  have mb: "map buffer sts' = map (fresh cur \<circ> buffer) (streams s)"
    by (simp add: sts'_def buffer_swept comp_def)
  have mc: "map core sts' = map core (streams s)"
    by (simp add: sts'_def core_swept comp_def)
  have s1: "latest_ts s1 = latest_ts s" "timeout s1 = timeout s" "streams s1 = sts'"
      "delivered s1 = delivered s" "current_ts s1 = current_ts s"
    by (simp_all add: s1_def)
  show ?thesis
  proof (cases "streams s = [] \<or> candidates 0 sts' = [] \<or> \<not> list_ex Stream_hasData sts'")
    case True
    then have "s' = s1 \<and> \<not> b \<or> s' = s \<and> \<not> b \<and> streams s = []"
      using st by (auto simp: step_eq Let_def s1_def sts'_def cur_def split: if_splits)
    then show ?thesis
      using s1 len mb mc unfolding cur_def by auto
  next
    case False
    then have sc: "scan s1 its = (b, s')"
      using st by (simp add: step_eq Let_def s1_def sts'_def cur_def its_def)
    have set_its: "set its = set (candidates 0 sts')"
      unfolding its_def using srt by (rule std_sort_set)
    have ok: "items_ok (streams s1) its"
      using candidates_ok [of sts'] set_its by (simp add: items_ok_def s1)
    note E = scan_effect [OF ok sc]
    show ?thesis
    proof (cases b)
      case bf: False
      with E show ?thesis using s1 len mb mc unfolding cur_def by simp
    next
      case True
      with E obtain pre it post v rest where
        d: "its = pre @ it # post" "\<forall>x \<in> set pre. \<not> hasData x" "hasData it"
           "buffer (streams s1 ! stream it) = (time it, v) # rest"
           "delivered s' = delivered s1 @ [(stream it, time it, v)]"
           "current_ts s' = time it"
           "map buffer (streams s') = (map buffer (streams s1))[stream it := rest]"
        by auto
      have "it \<in> set its" using d(1) by simp
      with ok have lt: "stream it < length (streams s)"
        by (simp add: items_ok_def s1 len)
      have nb: "\<And>j. j < length (streams s) \<Longrightarrow> buffer (sts' ! j) = fresh cur (buffer (streams s ! j))"
        by (simp add: sts'_def buffer_swept)
      have srt_its: "sorted_wrt (\<lambda>a b. \<not> time b < time a) (pre @ it # post)"
        using std_sort_sorted [OF srt, of "candidates 0 sts'"] d(1) by (simp add: its_def)
      have least: "t' \<le> fst x" if j: "j < length (streams s)"
        and f: "fresh cur (buffer (streams s ! j)) = x # xs" and t': "t' = time it" for j x xs t'
      proof -
        let ?c = "\<lparr>time = Stream_nextTimeStamp (sts' ! j), hasData = True, stream = j\<rparr>"
        have hd: "Stream_hasData (sts' ! j)"
          using nb [OF j] f by (simp add: Stream_hasData_def)
        have tm: "Stream_nextTimeStamp (sts' ! j) = fst x"
          using nb [OF j] f by (simp add: Stream_nextTimeStamp_def)
        have "?c \<in> set its"
          using candidates_has [of j sts'] hd j len set_its by simp
        moreover have "?c \<notin> set pre" using d(2) by auto
        ultimately have "?c = it \<or> ?c \<in> set post" using d(1) by auto
        then have "\<not> time ?c < time it"
          using srt_its by (auto simp: sorted_wrt_append)
        then show ?thesis using tm t' by simp
      qed
      have "stream it < length (streams s)
             \<and> fresh (current_ts s) (buffer (streams s ! stream it)) = (time it, v) # rest
             \<and> delivered s' = delivered s @ [(stream it, time it, v)]
             \<and> current_ts s' = time it
             \<and> map buffer (streams s') = (map (fresh (current_ts s) \<circ> buffer) (streams s))[stream it := rest]
             \<and> (\<forall>j < length (streams s). \<forall>x xs.
                   fresh (current_ts s) (buffer (streams s ! j)) = x # xs \<longrightarrow> time it \<le> fst x)"
        using lt d(4,5,6,7) nb [OF lt] s1 mb least unfolding cur_def by auto
      then have "\<exists>i t v rest. i < length (streams s)
             \<and> fresh (current_ts s) (buffer (streams s ! i)) = (t, v) # rest
             \<and> delivered s' = delivered s @ [(i, t, v)]
             \<and> current_ts s' = t
             \<and> map buffer (streams s') = (map (fresh (current_ts s) \<circ> buffer) (streams s))[i := rest]
             \<and> (\<forall>j < length (streams s). \<forall>x xs.
                   fresh (current_ts s) (buffer (streams s ! j)) = x # xs \<longrightarrow> t \<le> fst x)"
        by blast
      then show ?thesis using E True s1 len mc by simp
    qed
  qed
qed

lemma run_invariant:
  assumes "\<And>s c. P s \<Longrightarrow> P (snd (exec_call srt s c))" and "P s"
  shows "P (snd (run srt s cs))"
  using assms(2)
proof (induction cs arbitrary: s)
  case Nil
  then show ?case by simp
next
  case (Cons c cs)
  obtain r s1 where e: "exec_call srt s c = (r, s1)" by (cases "exec_call srt s c")
  have p1: "P s1" using assms(1) [OF Cons.prems, of c] e by simp
  show ?case
  proof (cases r)
    case None
    then show ?thesis using e Cons.IH [OF p1] by simp
  next
    case (Some err)
    then show ?thesis using e Cons.IH [OF p1] p1 by (cases err) simp_all
  qed
qed

lemma step_buffer_drop:
  assumes "std_sort srt" "step srt s = (b, s')" "j < length (streams s)"
  shows "\<exists>k. buffer (streams s' ! j) = drop k (buffer (streams s ! j))"
proof -
  note E = step_effect [OF assms(1,2)]
  have len: "length (streams s') = length (streams s)" using E by simp
  let ?cur = "current_ts s"
  have fr: "\<And>xs :: (Time \<times> 'b) list. fresh ?cur xs = drop (length (takeWhile (\<lambda>x. fst x < ?cur) xs)) xs"
    by (simp add: fresh_def dropWhile_eq_drop)
  have nthb: "buffer (streams s' ! j) = map buffer (streams s') ! j"
    using assms(3) len by simp
  show ?thesis
  proof (cases b)
    case False
    with E have "map buffer (streams s') = map (fresh ?cur \<circ> buffer) (streams s)" by simp
    then have "buffer (streams s' ! j) = fresh ?cur (buffer (streams s ! j))"
      using nthb assms(3) by simp
    then show ?thesis using fr by metis
  next
    case True
    with E obtain i t v rest where
      d: "i < length (streams s)" "fresh ?cur (buffer (streams s ! i)) = (t, v) # rest"
         "map buffer (streams s') = (map (fresh ?cur \<circ> buffer) (streams s))[i := rest]"
      by auto
    show ?thesis
    proof (cases "j = i")
      case False
      then have "buffer (streams s' ! j) = fresh ?cur (buffer (streams s ! j))"
        using nthb d(3) assms(3) by simp
      then show ?thesis using fr by metis
    next
      case True
      then have "buffer (streams s' ! j) = rest" using nthb d(3) assms(3) by simp
      moreover have "rest = drop 1 (fresh ?cur (buffer (streams s ! i)))" using d(2) by simp
      ultimately have "buffer (streams s' ! j)
          = drop (1 + length (takeWhile (\<lambda>x. fst x < ?cur) (buffer (streams s ! j)))) (buffer (streams s ! j))"
        using fr [of "buffer (streams s ! i)"] True by (metis drop_drop)
      then show ?thesis by blast
    qed
  qed
qed

lemma step_core:
  assumes "std_sort srt" "step srt s = (b, s')" "j < length (streams s)"
  shows "core (streams s' ! j) = core (streams s ! j)"
proof -
  note E = step_effect [OF assms(1,2)]
  then have "map core (streams s') = map core (streams s)" "length (streams s') = length (streams s)"
    by simp_all
  then show ?thesis using assms(3) by (metis nth_map)
qed

lemma step_current_ts:
  assumes "std_sort srt" "step srt s = (b, s')"
  shows "current_ts s \<le> current_ts s'"
proof -
  note E = step_effect [OF assms]
  show ?thesis
  proof (cases b)
    case False
    with E show ?thesis by simp
  next
    case True
    with E obtain i t v rest where
      d: "fresh (current_ts s) (buffer (streams s ! i)) = (t, v) # rest" "current_ts s' = t"
      by auto
    from d(1) have "\<not> fst (t, v) < current_ts s"
      unfolding fresh_def by (metis hd_dropWhile list.sel(1) list.distinct(1))
    with d(2) show ?thesis by simp
  qed
qed

lemma step_delivered:
  assumes "std_sort srt" "step srt s = (b, s')"
  shows "delivered s' = delivered s \<and> current_ts s' = current_ts s
     \<or> (\<exists>i t v. i < length (streams s) \<and> (t, v) \<in> set (buffer (streams s ! i))
           \<and> delivered s' = delivered s @ [(i, t, v)] \<and> current_ts s' = t)"
proof -
  note E = step_effect [OF assms]
  show ?thesis
  proof (cases b)
    case False
    with E show ?thesis by simp
  next
    case True
    with E obtain i t v rest where
      d: "i < length (streams s)" "fresh (current_ts s) (buffer (streams s ! i)) = (t, v) # rest"
         "delivered s' = delivered s @ [(i, t, v)]" "current_ts s' = t"
      by auto
    have "(t, v) \<in> set (fresh (current_ts s) (buffer (streams s ! i)))" using d(2) by simp
    then have "(t, v) \<in> set (buffer (streams s ! i))"
      unfolding fresh_def by (rule set_dropWhileD)
    with d show ?thesis by blast
  qed
qed

lemma push_frame:
  "delivered (snd (push s idx ty ts d)) = delivered s
   \<and> current_ts (snd (push s idx ty ts d)) = current_ts s
   \<and> timeout (snd (push s idx ty ts d)) = timeout s
   \<and> length (streams (snd (push s idx ty ts d))) = length (streams s)
   \<and> latest_ts s \<le> latest_ts (snd (push s idx ty ts d))"
  by (simp add: push_def Let_def)

lemma make_space_length: "0 < bs \<Longrightarrow> length (make_space bs xs) < bs"
  by (induction xs) auto

lemma make_space_set: "set (make_space bs xs) \<subseteq> set xs"
  by (induction xs) auto

lemma make_space_room: "bs = 0 \<or> length xs < bs \<Longrightarrow> make_space bs xs = xs"
  by (cases xs) auto

lemma make_space_full: "0 < bs \<Longrightarrow> length xs = bs \<Longrightarrow> make_space bs xs = tl xs"
  by (cases xs) (auto simp: make_space_room)

lemma list_all_update: "list_all P xs \<Longrightarrow> P y \<Longrightarrow> list_all P (xs[i := y])"
  using set_update_subset_insert [of xs i y] by (auto simp: list_all_iff)

lemma exec_order: 
  assumes srt: "std_sort srt" and i: "inv_order s"
  shows "inv_order (snd (exec_call srt s c))"
proof (cases c)
  case (Push idx ty ts d)
  then show ?thesis using i push_frame [of s idx ty ts d] by (simp add: inv_order_def)
next
  case Step
  obtain b s' where st: "step srt s = (b, s')" by (cases "step srt s")
  have le: "current_ts s \<le> current_ts s'" by (rule step_current_ts [OF srt st])
  have old: "\<And>e. e \<in> set (delivered s) \<Longrightarrow> ts_of e \<le> current_ts s'"
    using i le by (fastforce simp: inv_order_def list_all_iff)
  from step_delivered [OF srt st]
  consider "delivered s' = delivered s"
    | i t v where "delivered s' = delivered s @ [(i, t, v)]" "current_ts s' = t"
    by blast
  then have "inv_order s'"
  proof cases
    case 1
    then show ?thesis using i old by (simp add: inv_order_def list_all_iff)
  next
    case 2
    have "ts_of (i, t, v) = current_ts s'" using 2(2) by (simp add: ts_of_def)
    then show ?thesis using i old 2(1)
      by (simp add: inv_order_def list_all_iff sorted_append)
  qed
  then show ?thesis using Step st by simp
next
  case (SetTimeout t)
  then show ?thesis using i by (simp add: inv_order_def setTimeout_def)
next
  case (RegisterStream ty bs p)
  then show ?thesis using i by (simp add: inv_order_def registerStream_def Let_def)
qed

lemma Stream_push_bound:
  assumes "list_all (\<lambda>x. fst x \<le> l) (buffer st)" "ts \<le> l"
  shows "list_all (\<lambda>x. fst x \<le> l) (buffer (Stream_push st ts d))"
  using assms make_space_set [of "bufferSize st" "buffer st"]
  by (auto simp: Stream_push_def list_all_iff)

lemma push_time:
  assumes i: "inv_time s"
  shows "inv_time (snd (push s idx ty ts d))"
proof -
  define l where "l = max (latest_ts s) ts"
  have cur: "current_ts s \<le> l" using i unfolding inv_time_def l_def by linarith
  have all: "list_all (\<lambda>st. list_all (\<lambda>x. fst x \<le> l) (buffer st)) (streams s)"
    using i by (fastforce simp: inv_time_def l_def list_all_iff)
  show ?thesis
  proof (cases "idx < 0 \<or> ts + timeout s < latest_ts s")
    case True
    then show ?thesis using i by (auto simp: push_def)
  next
    case False
    define s1 where "s1 = (if ts > latest_ts s then s\<lparr>latest_ts := ts\<rparr> else s)"
    have s1: "latest_ts s1 = l" "streams s1 = streams s" "current_ts s1 = current_ts s"
      by (auto simp: s1_def l_def)
    have i1: "inv_time s1" using cur all s1 by (simp add: inv_time_def)
    show ?thesis
    proof (cases "nat idx \<ge> length (streams s1) \<or> elem_type (streams s1 ! nat idx) \<noteq> ty")
      case True
      then have "snd (push s idx ty ts d) = s1"
        using False by (auto simp: push_def Let_def s1_def)
      then show ?thesis using i1 by simp
    next
      case ok: False
      then have p: "snd (push s idx ty ts d)
           = s1\<lparr>streams := (streams s1)[nat idx := Stream_push (streams s1 ! nat idx) ts d]\<rparr>"
        using False by (auto simp: push_def Let_def s1_def)
      have "list_all (\<lambda>x. fst x \<le> l) (buffer (streams s ! nat idx))"
        using all ok s1 by (simp add: list_all_length)
      then have "list_all (\<lambda>x. fst x \<le> l) (buffer (Stream_push (streams s ! nat idx) ts d))"
        by (rule Stream_push_bound) (simp add: l_def)
      then have "list_all (\<lambda>st. list_all (\<lambda>x. fst x \<le> l) (buffer st))
                   ((streams s)[nat idx := Stream_push (streams s ! nat idx) ts d])"
        using all by (simp add: list_all_update)
      then show ?thesis unfolding p using cur s1 by (simp add: inv_time_def)
    qed
  qed
qed

lemma step_time:
  assumes srt: "std_sort srt" and st: "step srt s = (b, s')" and i: "inv_time s"
  shows "inv_time s'"
proof -
  note E = step_effect [OF srt st]
  have len: "length (streams s') = length (streams s)" and lat: "latest_ts s' = latest_ts s"
    using E by simp_all
  have bnd: "fst x \<le> latest_ts s" if "j < length (streams s)" "x \<in> set (buffer (streams s ! j))" for j x
  proof -
    have "streams s ! j \<in> set (streams s)" using that(1) by simp
    then show ?thesis using i that(2) by (auto simp: inv_time_def list_all_iff)
  qed
  have "list_all (\<lambda>x. fst x \<le> latest_ts s) (buffer (streams s' ! j))" if j: "j < length (streams s)" for j
  proof -
    obtain k where "buffer (streams s' ! j) = drop k (buffer (streams s ! j))"
      using step_buffer_drop [OF srt st j] by blast
    then have "set (buffer (streams s' ! j)) \<subseteq> set (buffer (streams s ! j))"
      by (simp add: set_drop_subset)
    then show ?thesis using bnd [OF j] by (auto simp: list_all_iff)
  qed
  then have a: "list_all (\<lambda>st. list_all (\<lambda>x. fst x \<le> latest_ts s') (buffer st)) (streams s')"
    using len lat by (simp add: list_all_length)
  have "current_ts s' \<le> latest_ts s"
    using step_delivered [OF srt st] bnd i by (fastforce simp: inv_time_def)
  then show ?thesis using a lat by (simp add: inv_time_def)
qed

lemma exec_time:
  assumes srt: "std_sort srt" and i: "inv_time s"
  shows "inv_time (snd (exec_call srt s c))"
proof (cases c)
  case (Push idx ty ts d)
  then show ?thesis using push_time [OF i] by simp
next
  case Step
  obtain b s' where st: "step srt s = (b, s')" by (cases "step srt s")
  then show ?thesis using Step step_time [OF srt st i] by simp
next
  case (SetTimeout t)
  then show ?thesis using i by (simp add: inv_time_def setTimeout_def)
next
  case (RegisterStream ty bs p)
  then show ?thesis using i by (simp add: inv_time_def registerStream_def Let_def Stream_new_def)
qed

lemma exec_mono:
  assumes srt: "std_sort srt"
  shows "latest_ts s \<le> latest_ts (snd (exec_call srt s c))
       \<and> current_ts s \<le> current_ts (snd (exec_call srt s c))"
proof (cases c)
  case (Push idx ty ts d)
  then show ?thesis using push_frame [of s idx ty ts d] by simp
next
  case Step
  obtain b s' where st: "step srt s = (b, s')" by (cases "step srt s")
  then show ?thesis using Step step_current_ts [OF srt st] step_effect [OF srt st] by simp
next
  case (SetTimeout t)
  then show ?thesis by (simp add: setTimeout_def)
next
  case (RegisterStream ty bs p)
  then show ?thesis by (simp add: registerStream_def Let_def)
qed

lemma run_mono:
  assumes srt: "std_sort srt"
  shows "latest_ts s \<le> latest_ts (snd (run srt s cs))
       \<and> current_ts s \<le> current_ts (snd (run srt s cs))"
proof -
  let ?P = "\<lambda>s' :: ('a, 'b) SampleReader.
              latest_ts s \<le> latest_ts s' \<and> current_ts s \<le> current_ts s'"
  have "?P (snd (run srt s cs))"
  proof (rule run_invariant [where P = "?P"])
    fix s' :: "('a, 'b) SampleReader" and c
    assume "?P s'"
    then show "?P (snd (exec_call srt s' c))"
      using exec_mono [OF srt, of s' c] by linarith
  qed simp
  then show ?thesis .
qed

lemma Stream_push_cap:
  assumes "bufferSize st = 0 \<or> length (buffer st) \<le> bufferSize st"
  shows "bufferSize (Stream_push st ts d) = 0
       \<or> length (buffer (Stream_push st ts d)) \<le> bufferSize (Stream_push st ts d)"
proof (cases "bufferSize st = 0 \<or> ts < lastTime st")
  case True
  then show ?thesis using assms by (auto simp: Stream_push_def)
next
  case False
  then have "length (make_space (bufferSize st) (buffer st)) < bufferSize st"
    by (simp add: make_space_length)
  then show ?thesis using False by (simp add: Stream_push_def)
qed

lemma push_cap:
  assumes i: "inv_cap s"
  shows "inv_cap (snd (push s idx ty ts d))"
proof -
  let ?P = "\<lambda>st :: ('a, 'b) Stream. bufferSize st = 0 \<or> length (buffer st) \<le> bufferSize st"
  have all: "list_all ?P (streams s)" using i by (simp add: inv_cap_def)
  have "list_all ?P ((streams s)[nat idx := Stream_push (streams s ! nat idx) ts d])"
    if "nat idx < length (streams s)"
  proof -
    have "?P (streams s ! nat idx)" using all that by (simp add: list_all_length)
    then have "?P (Stream_push (streams s ! nat idx) ts d)" by (rule Stream_push_cap)
    then show ?thesis using all by (simp add: list_all_update)
  qed
  then show ?thesis using all
    by (auto simp: push_def Let_def inv_cap_def)
qed

lemma step_cap:
  assumes srt: "std_sort srt" and st: "step srt s = (b, s')" and i: "inv_cap s"
  shows "inv_cap s'"
proof -
  note E = step_effect [OF srt st]
  have len: "length (streams s') = length (streams s)" using E by simp
  have "bufferSize (streams s' ! j) = 0 \<or> length (buffer (streams s' ! j)) \<le> bufferSize (streams s' ! j)"
    if j: "j < length (streams s)" for j
  proof -
    obtain k where "buffer (streams s' ! j) = drop k (buffer (streams s ! j))"
      using step_buffer_drop [OF srt st j] by blast
    then have l: "length (buffer (streams s' ! j)) \<le> length (buffer (streams s ! j))" by simp
    have c: "bufferSize (streams s' ! j) = bufferSize (streams s ! j)"
      using step_core [OF srt st j] by (simp add: core_def)
    have "bufferSize (streams s ! j) = 0 \<or> length (buffer (streams s ! j)) \<le> bufferSize (streams s ! j)"
      using i j by (simp add: inv_cap_def list_all_length)
    then show ?thesis using l c by linarith
  qed
  then show ?thesis using len by (simp add: inv_cap_def list_all_length)
qed

lemma exec_cap:
  assumes srt: "std_sort srt" and i: "inv_cap s"
  shows "inv_cap (snd (exec_call srt s c))"
proof (cases c)
  case (Push idx ty ts d)
  then show ?thesis using push_cap [OF i] by simp
next
  case Step
  obtain b s' where st: "step srt s = (b, s')" by (cases "step srt s")
  then show ?thesis using Step step_cap [OF srt st i] by simp
next
  case (SetTimeout t)
  then show ?thesis using i by (simp add: inv_cap_def setTimeout_def)
next
  case (RegisterStream ty bs p)
  then show ?thesis using i by (simp add: inv_cap_def registerStream_def Let_def Stream_new_def)
qed

lemma new_invs:
  "inv_order (SampleReader_new T)" "inv_time (SampleReader_new T)" "inv_cap (SampleReader_new T)"
  by (simp_all add: inv_order_def inv_time_def inv_cap_def SampleReader_new_def)

lemma reach_order: "std_sort srt \<Longrightarrow> inv_order (snd (run srt (SampleReader_new T) cs))"
  by (rule run_invariant [where P = inv_order]) (simp_all add: exec_order new_invs)

lemma reach_time: "std_sort srt \<Longrightarrow> inv_time (snd (run srt (SampleReader_new T) cs))"
  by (rule run_invariant [where P = inv_time]) (simp_all add: exec_time new_invs)

lemma reach_cap: "std_sort srt \<Longrightarrow> inv_cap (snd (run srt (SampleReader_new T) cs))"
  by (rule run_invariant [where P = inv_cap]) (simp_all add: exec_cap new_invs)

lemma push_known:
  assumes "known (snd (push s idx ty ts d)) e"
  shows "known s e \<or> pushed_in_time (s, Push idx ty ts d) e"
proof (cases "idx < 0 \<or> ts + timeout s < latest_ts s")
  case True
  then have "snd (push s idx ty ts d) = s" by (auto simp: push_def)
  then show ?thesis using assms by simp
next
  case False
  define s1 where "s1 = (if ts > latest_ts s then s\<lparr>latest_ts := ts\<rparr> else s)"
  have s1: "streams s1 = streams s" "delivered s1 = delivered s" by (auto simp: s1_def)
  show ?thesis
  proof (cases "nat idx \<ge> length (streams s1) \<or> elem_type (streams s1 ! nat idx) \<noteq> ty")
    case True
    then have "snd (push s idx ty ts d) = s1"
      using False by (auto simp: push_def Let_def s1_def)
    then show ?thesis using assms s1 by (simp add: known_def)
  next
    case ok: False
    then have p: "snd (push s idx ty ts d)
         = s1\<lparr>streams := (streams s1)[nat idx := Stream_push (streams s1 ! nat idx) ts d]\<rparr>"
      using False by (auto simp: push_def Let_def s1_def)
    have lt: "nat idx < length (streams s)" using ok s1 by simp
    show ?thesis
    proof (cases "e \<in> set (delivered s)")
      case True
      then show ?thesis by (simp add: known_def)
    next
      case nd: False
      with assms have b: "fst e < length (streams s)"
        "snd e \<in> set (buffer (((streams s)[nat idx := Stream_push (streams s ! nat idx) ts d]) ! fst e))"
        unfolding p by (simp_all add: known_def s1)
      show ?thesis
      proof (cases "fst e = nat idx")
        case neq: False
        then show ?thesis using b by (simp add: known_def)
      next
        case True
        then have "snd e \<in> set (buffer (Stream_push (streams s ! nat idx) ts d))"
          using b lt by simp
        then have "snd e \<in> set (buffer (streams s ! nat idx)) \<or> snd e = (ts, d)"
          using make_space_set [of "bufferSize (streams s ! nat idx)" "buffer (streams s ! nat idx)"]
          by (auto simp: Stream_push_def split: if_splits)
        then show ?thesis
        proof
          assume "snd e \<in> set (buffer (streams s ! nat idx))"
          then show ?thesis using True lt by (simp add: known_def)
        next
          assume "snd e = (ts, d)"
          then have "e = (nat idx, ts, d)" using True by (cases e) simp
          then show ?thesis using False by simp
        qed
      qed
    qed
  qed
qed

lemma step_known:
  assumes srt: "std_sort srt" and st: "step srt s = (b, s')" and k: "known s' e"
  shows "known s e"
proof -
  have len: "length (streams s') = length (streams s)"
    using step_effect [OF srt st] by simp
  from k consider "e \<in> set (delivered s')"
    | "fst e < length (streams s')" "snd e \<in> set (buffer (streams s' ! fst e))"
    by (auto simp: known_def)
  then show ?thesis
  proof cases
    case 1
    from step_delivered [OF srt st]
    consider "delivered s' = delivered s"
      | i t v where "i < length (streams s)" "(t, v) \<in> set (buffer (streams s ! i))"
          "delivered s' = delivered s @ [(i, t, v)]"
      by blast
    then show ?thesis
    proof cases
      case 1
      then show ?thesis using \<open>e \<in> set (delivered s')\<close> by (simp add: known_def)
    next
      case 2
      then have "e \<in> set (delivered s) \<or> e = (i, t, v)"
        using \<open>e \<in> set (delivered s')\<close> by auto
      then show ?thesis using 2(1,2) by (auto simp: known_def)
    qed
  next
    case 2
    then have j: "fst e < length (streams s)" using len by simp
    obtain n where "buffer (streams s' ! fst e) = drop n (buffer (streams s ! fst e))"
      using step_buffer_drop [OF srt st j] by blast
    then have "snd e \<in> set (buffer (streams s ! fst e))"
      using 2(2) by (metis in_set_dropD)
    then show ?thesis using j by (simp add: known_def)
  qed
qed

lemma exec_known:
  assumes srt: "std_sort srt" and k: "known (snd (exec_call srt s c)) e"
  shows "known s e \<or> pushed_in_time (s, c) e"
proof (cases c)
  case (Push idx ty ts d)
  then show ?thesis using k push_known [of s idx ty ts d e] by simp
next
  case Step
  obtain b s' where st: "step srt s = (b, s')" by (cases "step srt s")
  then show ?thesis using Step k step_known [OF srt st, of e] by simp
next
  case (SetTimeout t)
  then show ?thesis using k by (simp add: known_def setTimeout_def)
next
  case (RegisterStream ty bs p)
  then show ?thesis using k
    by (auto simp: known_def registerStream_def Let_def Stream_new_def nth_append split: if_splits)
qed

lemma run_known:
  assumes srt: "std_sort srt"
  shows "known (snd (run srt s cs)) e \<Longrightarrow>
           known s e \<or> list_ex (\<lambda>p. pushed_in_time p e) (trace srt s cs)"
proof (induction cs arbitrary: s)
  case Nil
  then show ?case by simp
next
  case (Cons c cs)
  obtain r s1 where e: "exec_call srt s c = (r, s1)" by (cases "exec_call srt s c")
  have pre: "known s1 e \<Longrightarrow> known s e \<or> pushed_in_time (s, c) e"
    using exec_known [OF srt, of s c e] e by simp
  show ?case
  proof (cases "r = None \<or> r = Some InvalidIndex")
    case True
    then have r: "run srt s (c # cs) = run srt s1 cs"
      and t: "trace srt s (c # cs) = (s, c) # trace srt s1 cs"
      using e by auto
    from Cons.prems r have "known (snd (run srt s1 cs)) e" by simp
    then have "known s1 e \<or> list_ex (\<lambda>p. pushed_in_time p e) (trace srt s1 cs)"
      by (rule Cons.IH)
    then show ?thesis using pre t by auto
  next
    case False
    then obtain err where err: "r = Some err" "err \<noteq> InvalidIndex" by (cases r) auto
    then have "run srt s (c # cs) = (r, s1)" using e by (cases err) simp_all
    then have "known s1 e" using Cons.prems by simp
    then show ?thesis using pre by auto
  qed
qed

lemma new_known: "\<not> known (SampleReader_new T) e"
  by (simp add: known_def SampleReader_new_def)

lemma late_sweep_fst: "fst (late_sweep cur i st) = swept cur st"
  by (simp add: late_sweep_eq)

lemma std_sort_single: "std_sort srt \<Longrightarrow> srt [x] = [x]"
proof -
  assume "std_sort srt"
  then have "mset (srt [x]) = mset [x]" unfolding std_sort_def by blast
  then show ?thesis by simp
qed

lemma step_single_front:
  assumes srt: "std_sort srt" and s: "streams s = [st]" and b: "buffer st = (t, v) # rest"
    and c: "current_ts s \<le> t"
  shows "step srt s = (True, s\<lparr>streams := [st\<lparr>overdue := False, buffer := rest\<rparr>],
                               delivered := delivered s @ [(0, t, v)], current_ts := t\<rparr>)"
proof -
  have sw: "swept (current_ts s) st = st" using b c by (simp add: swept_def)
  have ca: "candidate 0 st = [\<lparr>time = t, hasData = True, stream = 0\<rparr>]"
    using b by (simp add: candidate_def Stream_hasData_def Stream_nextTimeStamp_def)
  have hd: "Stream_hasData st" using b by (simp add: Stream_hasData_def)
  have ss: "s\<lparr>streams := [st]\<rparr> = s" using s by simp
  have po: "Stream_pop False st = (st\<lparr>overdue := False, buffer := rest\<rparr>, Some (t, v))"
    using b by (simp add: Stream_pop_def)
  show ?thesis
    by (simp add: step_eq Let_def s sw ca hd ss std_sort_single [OF srt] po)
qed

lemma step_single_empty:
  assumes s: "streams s = [st]" and b: "buffer st = []"
  shows "step srt s = (False, s)"
proof -
  have sw: "swept (current_ts s) st = st" using b by (simp add: swept_def)
  have hd: "\<not> Stream_hasData st" using b by (simp add: Stream_hasData_def)
  have ss: "s\<lparr>streams := [st]\<rparr> = s" using s by simp
  show ?thesis by (simp add: step_eq Let_def s sw hd ss)
qed

lemma steps_single:
  assumes srt: "std_sort srt"
  shows "streams s = [st] \<Longrightarrow> buffer st = xs \<Longrightarrow> sorted (map fst xs)
     \<Longrightarrow> \<forall>x \<in> set xs. current_ts s \<le> fst x
     \<Longrightarrow> \<exists>s' st'. steps srt (length xs) s = (replicate (length xs) True, s')
           \<and> delivered s' = delivered s @ on_stream0 xs
           \<and> streams s' = [st'] \<and> buffer st' = []"
proof (induction xs arbitrary: s st)
  case Nil
  then show ?case by (simp add: on_stream0_def)
next
  case (Cons x xs)
  obtain t v where x: "x = (t, v)" by (cases x)
  define st1 where "st1 = st\<lparr>overdue := False, buffer := xs\<rparr>"
  define s1 where "s1 = s\<lparr>streams := [st1], delivered := delivered s @ [(0, t, v)], current_ts := t\<rparr>"
  have st: "step srt s = (True, s1)"
    unfolding s1_def st1_def
    using step_single_front [OF srt Cons.prems(1), of t v xs] Cons.prems(2,4) x by simp
  have p: "streams s1 = [st1]" "buffer st1 = xs" "sorted (map fst xs)"
    "\<forall>y \<in> set xs. current_ts s1 \<le> fst y"
    using Cons.prems(3) x by (auto simp: s1_def st1_def)
  from Cons.IH [OF p] obtain s' st' where
    r: "steps srt (length xs) s1 = (replicate (length xs) True, s')"
       "delivered s' = delivered s1 @ on_stream0 xs" "streams s' = [st']" "buffer st' = []"
    by blast
  have "steps srt (length (x # xs)) s = (replicate (length (x # xs)) True, s')"
    using st r(1) by simp
  moreover have "delivered s' = delivered s @ on_stream0 (x # xs)"
    using r(2) x by (simp add: s1_def on_stream0_def)
  ultimately show ?case using r(3,4) by blast
qed

lemma push_single:
  assumes s: "streams s = [st]" and ty: "elem_type st = ty" and l: "lastTime st \<le> t"
    and e: "\<not> t + timeout s < latest_ts s"
    and r: "bufferSize st = 0 \<or> length (buffer st) < bufferSize st"
  shows "push s 0 ty t v =
           (None, s\<lparr>latest_ts := max (latest_ts s) t,
                    streams := [st\<lparr>lastTime := t, buffer := buffer st @ [(t, v)]\<rparr>]\<rparr>)"
proof -
  have sp: "Stream_push st t v = st\<lparr>lastTime := t, buffer := buffer st @ [(t, v)]\<rparr>"
    using l r by (simp add: Stream_push_def make_space_room)
  show ?thesis
    using e by (auto simp: push_def Let_def s ty sp max_def)
qed

lemma pushes_single:
  "streams s = [st] \<Longrightarrow> elem_type st = ty \<Longrightarrow> sorted (map fst xs)
     \<Longrightarrow> \<forall>x \<in> set xs. lastTime st \<le> fst x
     \<Longrightarrow> no_expiry (timeout s) (latest_ts s) xs
     \<Longrightarrow> bufferSize st = 0 \<or> length (buffer st) + length xs \<le> bufferSize st
     \<Longrightarrow> \<exists>s' st'. run srt s (push_calls ty xs) = (None, s')
           \<and> streams s' = [st'] \<and> buffer st' = buffer st @ xs
           \<and> delivered s' = delivered s \<and> current_ts s' = current_ts s"
proof (induction xs arbitrary: s st)
  case Nil
  then show ?case by (simp add: push_calls_def)
next
  case (Cons x xs)
  obtain t v where x: "x = (t, v)" by (cases x)
  define st1 where "st1 = st\<lparr>lastTime := t, buffer := buffer st @ [(t, v)]\<rparr>"
  define s1 where "s1 = s\<lparr>latest_ts := max (latest_ts s) t, streams := [st1]\<rparr>"
  have pu: "push s 0 ty t v = (None, s1)"
    unfolding s1_def st1_def
    using push_single [OF Cons.prems(1,2), of t v] Cons.prems(4,5,6) x by auto
  have p: "streams s1 = [st1]" "elem_type st1 = ty" "sorted (map fst xs)"
    "\<forall>y \<in> set xs. lastTime st1 \<le> fst y"
    "no_expiry (timeout s1) (latest_ts s1) xs"
    "bufferSize st1 = 0 \<or> length (buffer st1) + length xs \<le> bufferSize st1"
    using Cons.prems(2,3,5,6) x by (auto simp: s1_def st1_def)
  from Cons.IH [OF p] obtain s' st' where
    r: "run srt s1 (push_calls ty xs) = (None, s')" "streams s' = [st']"
       "buffer st' = buffer st1 @ xs" "delivered s' = delivered s1" "current_ts s' = current_ts s1"
    by blast
  have "run srt s (push_calls ty (x # xs)) = (None, s')"
    using pu r(1) x by (simp add: push_calls_def)
  moreover have "buffer st' = buffer st @ x # xs" using r(3) x by (simp add: st1_def)
  moreover have "delivered s' = delivered s" "current_ts s' = current_ts s"
    using r(4,5) by (simp_all add: s1_def)
  ultimately show ?case using r(2) by blast
qed

subsection \<open>The examples evaluated\<close>

lemma std_sort_sort_key: "std_sort (sort_key time)"
  unfolding std_sort_def
proof (intro allI conjI)
  fix xs :: "StreamIndex list"
  show "mset (sort_key time xs) = mset xs" by simp
  have "sorted (map time (sort_key time xs))" by (rule sorted_sort_key)
  then have "sorted_wrt (\<lambda>a b. time a \<le> time b) (sort_key time xs)"
    by (simp add: sorted_map)
  then show "sorted_wrt (\<lambda>a b. \<not> time b < time a) (sort_key time xs)"
    by (simp add: not_less)
qed

lemma agg1_value:
  "agg1 = \<lparr>streams = [Stream_new ''int'' 10 0], timeout = 1, latest_ts = 0, current_ts = 0,
           delivered = []\<rparr>"
  by (simp add: agg1_def registerStream_def SampleReader_new_def size_t_of_int_def)

lemma agg1_at10_value:
  "agg1_at10 =
     \<lparr>streams = [\<lparr>overdue = False, elem_type = ''int'', buffer = [(10, 100)], bufferSize = 10,
                  period = 0, lastTime = 10\<rparr>],
      timeout = 1, latest_ts = 10, current_ts = 0, delivered = []\<rparr>"
  by (simp add: agg1_at10_def agg1_value push_def Stream_push_def Stream_new_def)

lemma interleaved_value:
  "delivered (snd (run (sort_key time) (SampleReader_new 2) interleaved_calls))
     = [(0, 1, 10), (1, 2, 20), (0, 4, 12)]"
  by code_simp

lemma overflow_value:
  "streams (snd (run (sort_key time) (SampleReader_new 2) overflow_calls)) = [full_stream]"
  by code_simp

lemma stale_state_value:
  "stale_state =
     \<lparr>streams = [\<lparr>overdue = False, elem_type = ''int'', buffer = [(10, 1)], bufferSize = 10,
                  period = 0, lastTime = 10\<rparr>,
                 \<lparr>overdue = False, elem_type = ''int'', buffer = [], bufferSize = 10,
                  period = 0, lastTime = 0\<rparr>],
      timeout = 2, latest_ts = 10, current_ts = 0, delivered = []\<rparr>"
  by code_simp

lemma stale_run_value:
  "delivered (snd (run (sort_key time) (SampleReader_new 2) stale_calls)) = [(0, 10, 1)]"
  by code_simp

lemma negative_value:
  "steps (sort_key time) 1 (snd (run (sort_key time) agg1 (push_calls ''int'' [(- 1, 7)])))
     = ([False], agg1)"
  by code_simp

lemma run_registers:
  "run srt s (replicate m (RegisterStream ''int'' 10 0) @ cs)
     = run srt (s\<lparr>streams := streams s @ replicate m (Stream_new ''int'' 10 0)\<rparr>) cs"
proof (induction m arbitrary: s)
  case 0
  then show ?case by simp
next
  case (Suc m)
  have "run srt s (replicate (Suc m) (RegisterStream ''int'' 10 0) @ cs)
          = run srt (s\<lparr>streams := streams s @ [Stream_new ''int'' 10 0]\<rparr>)
              (replicate m (RegisterStream ''int'' 10 0) @ cs)"
    by (simp add: registerStream_def size_t_of_int_def)
  also have "\<dots> = run srt (s\<lparr>streams := streams s @ replicate (Suc m) (Stream_new ''int'' 10 0)\<rparr>) cs"
    by (simp add: Suc.IH)
  finally show ?case .
qed

lemma push_tied:
  assumes "k < n"
  shows "push (tied_partial n k) (int k) ''int'' 1 (100 + k) = (None, tied_partial n (Suc k))"
proof -
  let ?new = "Stream_new ''int'' 10 0 :: (string, nat) Stream"
  let ?sts = "map tied_stream [0 ..< k] @ replicate (n - k) ?new"
  have r: "replicate (n - k) ?new = ?new # replicate (n - Suc k) ?new"
    using assms by (metis Suc_diff_Suc replicate_Suc)
  have len: "k < length ?sts" using assms by simp
  have nth: "?sts ! k = ?new" using assms by (simp add: nth_append)
  have sp: "Stream_push ?new 1 (100 + k) = tied_stream k"
    by (simp add: Stream_push_def Stream_new_def tied_stream_def)
  have upd: "?sts[k := tied_stream k]
               = map tied_stream [0 ..< Suc k] @ replicate (n - Suc k) ?new"
    by (simp add: list_update_append r)
  have ty: "elem_type ?new = ''int''" by (simp add: Stream_new_def)
  show ?thesis
    using len nth sp upd ty by (simp add: push_def tied_partial_def Let_def)
qed

lemma run_pushes:
  "k \<le> n \<Longrightarrow>
     run srt (tied_partial n k) (map (\<lambda>i. Push (int i) ''int'' 1 (100 + i)) [k ..< n])
       = (None, tied_partial n n)"
proof (induction "n - k" arbitrary: k)
  case 0
  then show ?case by simp
next
  case (Suc d)
  then have lt: "k < n" by simp
  then have u: "[k ..< n] = k # [Suc k ..< n]" by (simp add: upt_conv_Cons)
  have "d = n - Suc k" "Suc k \<le> n" using Suc.hyps(2) lt by simp_all
  then have "run srt (tied_partial n (Suc k))
               (map (\<lambda>i. Push (int i) ''int'' 1 (100 + i)) [Suc k ..< n]) = (None, tied_partial n n)"
    by (rule Suc.hyps(1))
  then show ?case using push_tied [OF lt] by (simp add: u)
qed

lemma tied_reached: "run srt (SampleReader_new 2) tied_calls = (None, tied_state)"
proof -
  let ?pushes = "map (\<lambda>i. Push (int i) ''int'' 1 (100 + i)) [0 ..< 17] :: (string, nat) call list"
  have e1: "(SampleReader_new 2 :: (string, nat) SampleReader)
          \<lparr>streams := streams (SampleReader_new 2) @ replicate 17 (Stream_new ''int'' 10 0)\<rparr>
        = tied_partial 17 0"
    by (simp add: SampleReader_new_def tied_partial_def)
  have e2: "tied_partial 17 17 = tied_state"
    by (simp add: tied_partial_def tied_state_def)
  have "run srt (SampleReader_new 2) tied_calls
          = run srt ((SampleReader_new 2 :: (string, nat) SampleReader)
              \<lparr>streams := streams (SampleReader_new 2) @ replicate 17 (Stream_new ''int'' 10 0)\<rparr>)
              ?pushes"
    unfolding tied_calls_def by (rule run_registers)
  also have "\<dots> = run srt (tied_partial 17 0) ?pushes" by (simp only: e1)
  also have "\<dots> = (None, tied_partial 17 17)" by (rule run_pushes) simp
  also have "\<dots> = (None, tied_state)" by (simp only: e2)
  finally show ?thesis .
qed

lemma tied_fronts:
  "length (streams tied_state) = 17
   \<and> list_all Stream_hasData (streams tied_state)
   \<and> map Stream_nextTimeStamp (streams tied_state) = replicate 17 1"
  by code_simp

lemma tied_scan_order:
  "map stream (gnu_std_sort (candidates 0 (streams tied_state)))
     = [8, 16, 15, 14, 13, 12, 11, 10, 9, 0, 7, 6, 5, 4, 3, 2, 1]"
  by code_simp

lemma tied_step:
  "fst (step gnu_std_sort tied_state) = True
   \<and> delivered (snd (step gnu_std_sort tied_state)) = [(8, 1, 108)]"
  by code_simp

lemma apart_reached:
  "run (sort_key time) (SampleReader_new 2)
     [RegisterStream ''int'' 10 0, RegisterStream ''int'' 10 0,
      Push 0 ''int'' 2 10, Push 1 ''int'' 1 20] = (None, apart_state)"
  by code_simp

lemma apart_step: "step (sort_key time) apart_state = (True, apart_after)"
  by code_simp

lemma apart_fronts:
  "Stream_nextTimeStamp (fst (late_sweep (current_ts apart_state) 0 (streams apart_state ! 0))) = 2
   \<and> Stream_nextTimeStamp (fst (late_sweep (current_ts apart_state) 1 (streams apart_state ! 1))) = 1"
  by code_simp

text \<open>
  On two candidates of equal time the sort of the GNU library is its insertion sort alone,
  and the stream registered first is emitted.
\<close>

lemma two_tied_keep_order:
  "run gnu_std_sort (SampleReader_new 2)
     [RegisterStream ''int'' 10 0, RegisterStream ''int'' 10 0,
      Push 0 ''int'' 1 10, Push 1 ''int'' 1 20] = (None, two_tied_state)
   \<and> delivered (snd (step gnu_std_sort two_tied_state)) = [(0, 1, 10)]"
  by code_simp

subsection \<open>The claims\<close>

text \<open>
  C1. For every sequence of calls on a new aggregator (pushes and steps, and also
  registrations and changes of the timeout), the timestamps handed to the callbacks, in the
  order of the calls of the callbacks and across all streams, never decrease. This holds
  whatever order the sort leaves among candidates with equal times.
\<close>

theorem delivered_nondecreasing:
  assumes "std_sort srt"
  shows "sorted (map ts_of (delivered (snd (run srt (SampleReader_new T) cs))))"
  using reach_order [OF assms, of T cs] by (simp add: inv_order_def)

theorem delivered_nondecreasing_witness:
  "std_sort (sort_key time)
   \<and> delivered (snd (run (sort_key time) (SampleReader_new 2) interleaved_calls))
       = [(0, 1, 10), (1, 2, 20), (0, 4, 12)]
   \<and> sorted (map ts_of (delivered (snd (run (sort_key time) (SampleReader_new 2) interleaved_calls))))"
  using delivered_nondecreasing [OF std_sort_sort_key, of 2 interleaved_calls]
    std_sort_sort_key interleaved_value
  by simp

text \<open>
  C2. A push of a stale sample (\<open>ts + timeout < latest_ts\<close>) that passes the index test
  returns without error and leaves the whole state as it was: nothing is buffered. (A
  negative index is answered with InvalidIndex before anything else, as the index rule
  asks.) And in every execution from a new aggregator, each sample handed to a callback was
  pushed to that stream by a call that found it not stale, so a sample that was stale at
  its push is never delivered.
\<close>

theorem stale_push_never_delivered:
  "(0 \<le> idx \<longrightarrow> ts + timeout s < latest_ts s \<longrightarrow> push s idx ty ts d = (None, s))
   \<and> (std_sort srt \<longrightarrow> e \<in> set (delivered (snd (run srt (SampleReader_new T) cs))) \<longrightarrow>
        list_ex (\<lambda>p. pushed_in_time p e) (trace srt (SampleReader_new T) cs))"
proof (intro conjI impI)
  assume "0 \<le> idx" "ts + timeout s < latest_ts s"
  then show "push s idx ty ts d = (None, s)" by (simp add: push_def)
next
  assume srt: "std_sort srt" and "e \<in> set (delivered (snd (run srt (SampleReader_new T) cs)))"
  then have "known (snd (run srt (SampleReader_new T) cs)) e" by (simp add: known_def)
  then show "list_ex (\<lambda>p. pushed_in_time p e) (trace srt (SampleReader_new T) cs)"
    using run_known [OF srt] new_known by blast
qed

theorem stale_push_never_delivered_witness:
  "(0::int) \<le> 1 \<and> 7 + timeout stale_state < latest_ts stale_state
   \<and> push stale_state 1 ''int'' 7 2 = (None, stale_state)
   \<and> std_sort (sort_key time)
   \<and> (0, 10, 1) \<in> set (delivered (snd (run (sort_key time) (SampleReader_new 2) stale_calls)))
   \<and> list_ex (\<lambda>p. pushed_in_time p (0, 10, 1)) (trace (sort_key time) (SampleReader_new 2) stale_calls)
   \<and> (1, 7, 2) \<notin> set (delivered (snd (run (sort_key time) (SampleReader_new 2) stale_calls)))"
proof -
  have h: "(0::int) \<le> 1" "7 + timeout stale_state < latest_ts stale_state"
    by (simp_all add: stale_state_value)
  have m: "(0, 10, 1) \<in> set (delivered (snd (run (sort_key time) (SampleReader_new 2) stale_calls)))"
    "(1, 7, 2) \<notin> set (delivered (snd (run (sort_key time) (SampleReader_new 2) stale_calls)))"
    by (simp_all add: stale_run_value)
  show ?thesis
    using stale_push_never_delivered [of 1 7 stale_state "''int''" 2 "sort_key time" "(0, 10, 1)" 2 stale_calls]
      h m std_sort_sort_key
    by simp
qed

text \<open>
  C3, as amended. The candidates are scanned in ascending order of time, so when \<^verbatim>\<open>step\<close>
  emits, the sample is the front of a stream as the late sweep left it, and no stream that
  holds data after the sweep has an earlier front. Which of several candidates with the
  same time comes first is left to the sort.
\<close>

theorem step_emits_earliest:
  assumes "std_sort srt" and "step srt s = (True, s')"
  shows "\<exists>i t v rest. i < length (streams s)
           \<and> buffer (fst (late_sweep (current_ts s) i (streams s ! i))) = (t, v) # rest
           \<and> delivered s' = delivered s @ [(i, t, v)]
           \<and> current_ts s' = t
           \<and> (\<forall>j < length (streams s).
                 Stream_hasData (fst (late_sweep (current_ts s) j (streams s ! j))) \<longrightarrow>
                 t \<le> Stream_nextTimeStamp (fst (late_sweep (current_ts s) j (streams s ! j))))"
proof -
  from step_effect [OF assms] obtain i t v rest where
    d: "i < length (streams s)" "fresh (current_ts s) (buffer (streams s ! i)) = (t, v) # rest"
       "delivered s' = delivered s @ [(i, t, v)]" "current_ts s' = t"
       "\<forall>j < length (streams s). \<forall>x xs.
           fresh (current_ts s) (buffer (streams s ! j)) = x # xs \<longrightarrow> t \<le> fst x"
    by auto
  have "t \<le> Stream_nextTimeStamp (fst (late_sweep (current_ts s) j (streams s ! j)))"
    if "j < length (streams s)" "Stream_hasData (fst (late_sweep (current_ts s) j (streams s ! j)))" for j
  proof -
    from that(2) obtain x xs where f: "fresh (current_ts s) (buffer (streams s ! j)) = x # xs"
      by (auto simp: late_sweep_fst Stream_hasData_def buffer_swept neq_Nil_conv)
    then have "t \<le> fst x" using d(5) that(1) by blast
    then show ?thesis using f
      by (simp add: late_sweep_fst Stream_nextTimeStamp_def buffer_swept)
  qed
  then show ?thesis using d(1,2,3,4) by (auto simp: late_sweep_fst buffer_swept)
qed

theorem step_emits_earliest_witness:
  "std_sort (sort_key time)
   \<and> run (sort_key time) (SampleReader_new 2)
       [RegisterStream ''int'' 10 0, RegisterStream ''int'' 10 0,
        Push 0 ''int'' 2 10, Push 1 ''int'' 1 20] = (None, apart_state)
   \<and> Stream_nextTimeStamp (fst (late_sweep (current_ts apart_state) 0 (streams apart_state ! 0))) = 2
   \<and> Stream_nextTimeStamp (fst (late_sweep (current_ts apart_state) 1 (streams apart_state ! 1))) = 1
   \<and> step (sort_key time) apart_state = (True, apart_after)
   \<and> delivered apart_after = delivered apart_state @ [(1, 1, 20)]
   \<and> (\<exists>i t v rest. i < length (streams apart_state)
           \<and> buffer (fst (late_sweep (current_ts apart_state) i (streams apart_state ! i))) = (t, v) # rest
           \<and> delivered apart_after = delivered apart_state @ [(i, t, v)]
           \<and> current_ts apart_after = t
           \<and> (\<forall>j < length (streams apart_state).
                 Stream_hasData (fst (late_sweep (current_ts apart_state) j (streams apart_state ! j))) \<longrightarrow>
                 t \<le> Stream_nextTimeStamp (fst (late_sweep (current_ts apart_state) j (streams apart_state ! j)))))"
proof -
  have d: "delivered apart_after = delivered apart_state @ [(1, 1, 20)]"
    by (simp add: apart_after_def apart_state_def)
  show ?thesis
    using step_emits_earliest [OF std_sort_sort_key apart_step]
      std_sort_sort_key apart_reached apart_fronts apart_step d
    by simp
qed

text \<open>
  C3, as stated, fails: \<^verbatim>\<open>std::sort\<close> is not a stable sort and \<^verbatim>\<open>operator<\<close> compares the time
  only. With seventeen streams that each hold a sample of the same time, the sort of the GNU
  library puts the candidate of stream 8 first, and \<^verbatim>\<open>step\<close> emits it, not the sample of the
  stream registered first.
\<close>

theorem seventeen_tied_streams_counterexample:
  "run gnu_std_sort (SampleReader_new 2) tied_calls = (None, tied_state)
   \<and> length (streams tied_state) = 17
   \<and> list_all Stream_hasData (streams tied_state)
   \<and> map Stream_nextTimeStamp (streams tied_state) = replicate 17 1
   \<and> map stream (gnu_std_sort (candidates 0 (streams tied_state)))
       = [8, 16, 15, 14, 13, 12, 11, 10, 9, 0, 7, 6, 5, 4, 3, 2, 1]
   \<and> fst (step gnu_std_sort tied_state) = True
   \<and> delivered (snd (step gnu_std_sort tied_state)) = [(8, 1, 108)]"
  using tied_reached [of gnu_std_sort] tied_fronts tied_scan_order tied_step by simp

text \<open>
  C4. The claim asks for an InvalidIndex error, and an untouched state, for every index
  below zero or at or beyond the number of streams. The code checks \<^verbatim>\<open>idx < 0\<close> only. At
  index 1 of an aggregator with one stream, and a sample that is not stale, \<^verbatim>\<open>push\<close> does
  not throw: it advances \<^verbatim>\<open>latest_ts\<close> and then reads \<^verbatim>\<open>streams[1]\<close> past the end of the
  vector.
\<close>

theorem push_index_past_end:
  "push agg1 1 ''int'' 5 7 = (Some OutOfBounds, agg1\<lparr>latest_ts := 5\<rparr>)
   \<and> length (streams agg1) = 1
   \<and> push agg1 1 ''int'' 5 7 \<noteq> (Some InvalidIndex, agg1)
   \<and> push agg1 (- 1) ''int'' 5 7 = (Some InvalidIndex, agg1)"
  by (simp add: agg1_value push_def)

text \<open>
  C5, as amended. A push to a valid index whose stream has another element type stores
  nothing. It fails with TypeMismatch (the assertion on the result of the cast) when the
  sample is not stale; a stale sample is dropped first, silently and with no change of
  state, so that for it no error is reported.
\<close>

theorem push_type_mismatch:
  assumes "0 \<le> idx" and "nat idx < length (streams s)"
    and "elem_type (streams s ! nat idx) \<noteq> ty"
  shows "streams (snd (push s idx ty ts d)) = streams s
     \<and> (if ts + timeout s < latest_ts s then push s idx ty ts d = (None, s)
        else fst (push s idx ty ts d) = Some TypeMismatch)"
  using assms by (simp add: push_def Let_def)

theorem push_type_mismatch_witness:
  "(0::int) \<le> 0 \<and> nat 0 < length (streams agg1) \<and> elem_type (streams agg1 ! nat 0) \<noteq> ''double''
   \<and> \<not> 5 + timeout agg1 < latest_ts agg1
   \<and> streams (snd (push agg1 0 ''double'' 5 7)) = streams agg1
   \<and> fst (push agg1 0 ''double'' 5 7) = Some TypeMismatch"
proof -
  have h: "(0::int) \<le> 0" "nat 0 < length (streams agg1)"
    "elem_type (streams agg1 ! nat 0) \<noteq> ''double''" "\<not> 5 + timeout agg1 < latest_ts agg1"
    by (simp_all add: agg1_value Stream_new_def)
  show ?thesis
    using h push_type_mismatch [OF h(1,2,3), of 5 7] by simp
qed

text \<open>
  C5, as stated, fails: the stream at index 0 holds \<open>''int''\<close>, the push is for
  \<open>''double''\<close>, and since the sample is stale the call returns without any error.
\<close>

theorem stale_push_hides_type_mismatch_counterexample:
  "(0::int) \<le> 0 \<and> nat 0 < length (streams agg1_at10)
   \<and> elem_type (streams agg1_at10 ! nat 0) \<noteq> ''double''
   \<and> push agg1_at10 0 ''double'' 5 7 = (None, agg1_at10)
   \<and> fst (push agg1_at10 0 ''double'' 5 7) \<noteq> Some TypeMismatch"
  by (simp add: agg1_at10_value push_def)

text \<open>
  C6. In every state a new aggregator can reach, \<open>current_ts \<le> latest_ts\<close>, so the latency
  is not negative; and from such a state on, whatever calls follow, neither \<open>latest_ts\<close>
  nor \<open>current_ts\<close> decreases.
\<close>

theorem timestamps_monotone:
  assumes "std_sort srt"
    and "s = snd (run srt (SampleReader_new T) cs)"
    and "s' = snd (run srt s cs')"
  shows "current_ts s \<le> latest_ts s \<and> 0 \<le> getLatency s
     \<and> latest_ts s \<le> latest_ts s' \<and> current_ts s \<le> current_ts s'"
  using reach_time [OF assms(1), of T cs] run_mono [OF assms(1), of s cs'] assms(2,3)
  by (simp add: inv_time_def getLatency_def)

theorem timestamps_monotone_witness:
  "std_sort (sort_key time)
   \<and> current_ts (snd (run (sort_key time) (SampleReader_new 2) (take 5 interleaved_calls)))
       \<le> latest_ts (snd (run (sort_key time) (SampleReader_new 2) (take 5 interleaved_calls)))
   \<and> 0 \<le> getLatency (snd (run (sort_key time) (SampleReader_new 2) (take 5 interleaved_calls)))
   \<and> latest_ts (snd (run (sort_key time) (SampleReader_new 2) (take 5 interleaved_calls)))
       \<le> latest_ts (snd (run (sort_key time)
            (snd (run (sort_key time) (SampleReader_new 2) (take 5 interleaved_calls)))
            (drop 5 interleaved_calls)))
   \<and> current_ts (snd (run (sort_key time) (SampleReader_new 2) (take 5 interleaved_calls)))
       \<le> current_ts (snd (run (sort_key time)
            (snd (run (sort_key time) (SampleReader_new 2) (take 5 interleaved_calls)))
            (drop 5 interleaved_calls)))"
  using timestamps_monotone [OF std_sort_sort_key refl refl, of 2 "take 5 interleaved_calls"
      "drop 5 interleaved_calls"] std_sort_sort_key
  by simp

text \<open>
  C7. For a stream with \<open>bufferSize > 0\<close>: a push to a full buffer that appends the sample
  first removes the oldest one, and only that one (a sample older than \<open>lastTime\<close> is
  rejected before that, and then nothing is removed and nothing appended); a push never
  takes the buffer beyond \<open>bufferSize\<close>; and every stream of every reachable aggregator
  state is within its \<open>bufferSize\<close>.
\<close>

theorem Stream_push_drop_oldest:
  assumes "0 < bufferSize st"
  shows "(length (buffer st) = bufferSize st \<longrightarrow>
            buffer (Stream_push st ts d)
              = (if ts < lastTime st then buffer st else tl (buffer st) @ [(ts, d)]))
     \<and> (length (buffer st) \<le> bufferSize st \<longrightarrow>
            length (buffer (Stream_push st ts d)) \<le> bufferSize st)
     \<and> (std_sort srt \<longrightarrow> st \<in> set (streams (snd (run srt (SampleReader_new T) cs))) \<longrightarrow>
            length (buffer st) \<le> bufferSize st)"
proof (intro conjI impI)
  assume "length (buffer st) = bufferSize st"
  then show "buffer (Stream_push st ts d)
              = (if ts < lastTime st then buffer st else tl (buffer st) @ [(ts, d)])"
    using assms by (simp add: Stream_push_def make_space_full)
next
  assume "length (buffer st) \<le> bufferSize st"
  then show "length (buffer (Stream_push st ts d)) \<le> bufferSize st"
    using Stream_push_cap [of st ts d] assms by (simp add: Stream_push_def split: if_splits)
next
  assume "std_sort srt" and "st \<in> set (streams (snd (run srt (SampleReader_new T) cs)))"
  then show "length (buffer st) \<le> bufferSize st"
    using reach_cap [of srt T cs] assms by (auto simp: inv_cap_def list_all_iff)
qed

theorem Stream_push_drop_oldest_witness:
  "0 < bufferSize full_stream \<and> length (buffer full_stream) = bufferSize full_stream
   \<and> \<not> 3 < lastTime full_stream
   \<and> std_sort (sort_key time)
   \<and> full_stream \<in> set (streams (snd (run (sort_key time) (SampleReader_new 2) overflow_calls)))
   \<and> buffer (Stream_push full_stream 3 33) = [(2, 22), (3, 33)]
   \<and> length (buffer (Stream_push full_stream 3 33)) \<le> bufferSize full_stream"
proof -
  have h: "0 < bufferSize full_stream" by (simp add: full_stream_def)
  have m: "full_stream \<in> set (streams (snd (run (sort_key time) (SampleReader_new 2) overflow_calls)))"
    by (simp add: overflow_value)
  have e: "length (buffer full_stream) = bufferSize full_stream" "\<not> 3 < lastTime full_stream"
    "tl (buffer full_stream) @ [(3, 33)] = [(2, 22), (3, 33)]" "bufferSize full_stream = 2"
    by (simp_all add: full_stream_def)
  show ?thesis
    using Stream_push_drop_oldest [OF h, of 3 33 "sort_key time" 2 overflow_calls]
      h m e std_sort_sort_key
    by simp
qed

text \<open>
  C8, as amended. On a new aggregator with one stream: samples with timestamps
  \<open>0 \<le> t\<^sub>1 \<le> \<dots> \<le> t\<^sub>n\<close>, pushed in order with the stream's type, with \<open>n\<close> within
  \<open>bufferSize\<close> and none of them stale at its push, are all accepted; the next \<open>n\<close> calls of
  \<^verbatim>\<open>step\<close> each return true and deliver exactly these samples, in order, with their
  timestamps and values; and the call after that returns false and changes nothing.
\<close>

theorem single_stream_round_trip:
  assumes "std_sort srt" and "sorted (map fst xs)" and "\<forall>x \<in> set xs. 0 \<le> fst x"
    and "length xs \<le> size_t_of_int bs" and "no_expiry T 0 xs"
    and "s0 = snd (registerStream ty bs p (SampleReader_new T))"
    and "s1 = snd (run srt s0 (push_calls ty xs))"
    and "s2 = snd (steps srt (length xs) s1)"
  shows "fst (run srt s0 (push_calls ty xs)) = None
     \<and> fst (steps srt (length xs) s1) = replicate (length xs) True
     \<and> delivered s2 = on_stream0 xs
     \<and> step srt s2 = (False, s2)"
proof -
  obtain st0 where s0: "streams s0 = [st0]" "timeout s0 = T" "latest_ts s0 = 0"
      "current_ts s0 = 0" "delivered s0 = []"
    and st0: "elem_type st0 = ty" "lastTime st0 = 0" "buffer st0 = []"
      "bufferSize st0 = size_t_of_int bs"
    using assms(6)
    by (simp add: registerStream_def SampleReader_new_def Let_def Stream_new_def)
  have "\<exists>s' st'. run srt s0 (push_calls ty xs) = (None, s')
           \<and> streams s' = [st'] \<and> buffer st' = buffer st0 @ xs
           \<and> delivered s' = delivered s0 \<and> current_ts s' = current_ts s0"
    using assms(2,3,4,5) s0 st0 by (intro pushes_single) simp_all
  then obtain st1 where
    r: "run srt s0 (push_calls ty xs) = (None, s1)" "streams s1 = [st1]" "buffer st1 = xs"
       "delivered s1 = []" "current_ts s1 = 0"
    using assms(7) s0 st0 by auto
  have "\<exists>s' st'. steps srt (length xs) s1 = (replicate (length xs) True, s')
           \<and> delivered s' = delivered s1 @ on_stream0 xs
           \<and> streams s' = [st'] \<and> buffer st' = []"
    using assms(2,3) r by (intro steps_single [OF assms(1)]) simp_all
  then obtain st2 where
    q: "steps srt (length xs) s1 = (replicate (length xs) True, s2)"
       "delivered s2 = on_stream0 xs" "streams s2 = [st2]" "buffer st2 = []"
    using assms(8) r(4) by auto
  show ?thesis
    using r(1) q(1,2) step_single_empty [OF q(3,4), of srt] by simp
qed

theorem single_stream_round_trip_witness:
  "std_sort (sort_key time) \<and> sorted (map fst round_trip_samples)
   \<and> list_all (\<lambda>x. 0 \<le> fst x) round_trip_samples
   \<and> length round_trip_samples \<le> size_t_of_int 10
   \<and> no_expiry 1 0 round_trip_samples
   \<and> fst (run (sort_key time) agg1 (push_calls ''int'' round_trip_samples)) = None
   \<and> fst (steps (sort_key time) 3
            (snd (run (sort_key time) agg1 (push_calls ''int'' round_trip_samples)))) = [True, True, True]
   \<and> delivered (snd (steps (sort_key time) 3
            (snd (run (sort_key time) agg1 (push_calls ''int'' round_trip_samples)))))
       = [(0, 1, 11), (0, 1, 12), (0, 3, 13)]"
proof -
  have h: "sorted (map fst round_trip_samples)" "\<forall>x \<in> set round_trip_samples. 0 \<le> fst x"
    "length round_trip_samples \<le> size_t_of_int 10" "no_expiry 1 0 round_trip_samples"
    by (simp_all add: round_trip_samples_def size_t_of_int_def)
  have l: "length round_trip_samples = 3" "replicate 3 True = [True, True, True]"
    "on_stream0 round_trip_samples = [(0, 1, 11), (0, 1, 12), (0, 3, 13)]"
    by (simp_all add: round_trip_samples_def on_stream0_def numeral_3_eq_3)
  show ?thesis
    using single_stream_round_trip [OF std_sort_sort_key h agg1_def refl refl] h l std_sort_sort_key
    by (simp add: list_all_iff)
qed

text \<open>
  C8, as stated, fails for a timestamp before the null time: a new stream has
  \<open>lastTime = 0\<close>, so \<^verbatim>\<open>Stream::push\<close> rejects the sample, and \<^verbatim>\<open>step\<close> finds nothing to deliver.
\<close>

theorem round_trip_negative_time_counterexample:
  "std_sort (sort_key time) \<and> sorted (map fst [(- 1, 7 :: nat)])
   \<and> length [(- 1 :: Time, 7 :: nat)] \<le> size_t_of_int 10
   \<and> no_expiry 1 0 [(- 1, 7 :: nat)]
   \<and> fst (run (sort_key time) agg1 (push_calls ''int'' [(- 1, 7)])) = None
   \<and> steps (sort_key time) 1 (snd (run (sort_key time) agg1 (push_calls ''int'' [(- 1, 7)])))
       = ([False], agg1)
   \<and> delivered agg1 = []"
proof -
  have "fst (run (sort_key time) agg1 (push_calls ''int'' [(- 1, 7)])) = None"
    by (simp add: push_calls_def agg1_value push_def Stream_push_def Stream_new_def)
  then show ?thesis
    using std_sort_sort_key negative_value
    by (simp add: size_t_of_int_def agg1_value)
qed

text \<open>
  C9. The staleness test comes before the index is used: with an index that is not negative
  but at or beyond the number of streams, a stale sample makes \<^verbatim>\<open>push\<close> return with no error
  and the state as it was.
\<close>

theorem push_stale_before_index_use:
  assumes "0 \<le> idx" and "int (length (streams s)) \<le> idx"
    and "ts + timeout s < latest_ts s"
  shows "push s idx ty ts d = (None, s)"
  using assms by (simp add: push_def)

theorem push_stale_before_index_use_witness:
  "(0::int) \<le> 1 \<and> int (length (streams agg1_at10)) \<le> 1
   \<and> 5 + timeout agg1_at10 < latest_ts agg1_at10
   \<and> push agg1_at10 1 ''int'' 5 7 = (None, agg1_at10)"
proof -
  have h: "(0::int) \<le> 1" "int (length (streams agg1_at10)) \<le> 1"
    "5 + timeout agg1_at10 < latest_ts agg1_at10"
    by (simp_all add: agg1_at10_value)
  show ?thesis
    using h push_stale_before_index_use [OF h, of "''int''" 7] by simp
qed

text \<open>
  C10. \<^verbatim>\<open>latest_ts\<close> is assigned before the cast is checked: a push of a sample newer than
  \<open>latest_ts\<close> to a valid index whose stream has another element type fails, stores nothing,
  and leaves \<open>latest_ts\<close> at the timestamp of the rejected sample.
\<close>

theorem latest_ts_advanced_on_type_mismatch:
  assumes "0 \<le> idx" and "nat idx < length (streams s)"
    and "\<not> ts + timeout s < latest_ts s" and "latest_ts s < ts"
    and "elem_type (streams s ! nat idx) \<noteq> ty"
  shows "push s idx ty ts d = (Some TypeMismatch, s\<lparr>latest_ts := ts\<rparr>)"
  using assms by (simp add: push_def Let_def)

theorem latest_ts_advanced_on_type_mismatch_witness:
  "(0::int) \<le> 0 \<and> nat 0 < length (streams agg1)
   \<and> \<not> 5 + timeout agg1 < latest_ts agg1 \<and> latest_ts agg1 < 5
   \<and> elem_type (streams agg1 ! nat 0) \<noteq> ''double''
   \<and> push agg1 0 ''double'' 5 7 = (Some TypeMismatch, agg1\<lparr>latest_ts := 5\<rparr>)
   \<and> latest_ts (snd (push agg1 0 ''double'' 5 7)) = 5
   \<and> streams (snd (push agg1 0 ''double'' 5 7)) = streams agg1"
proof -
  have h: "(0::int) \<le> 0" "nat 0 < length (streams agg1)"
    "\<not> 5 + timeout agg1 < latest_ts agg1" "latest_ts agg1 < 5"
    "elem_type (streams agg1 ! nat 0) \<noteq> ''double''"
    by (simp_all add: agg1_value Stream_new_def)
  show ?thesis
    using h latest_ts_advanced_on_type_mismatch [OF h, of 7] by simp
qed

end
